theory Spec2Isabelle
  imports Main
begin

section \<open>Text primitives of the host language\<close>

text \<open>
  A Python \<open>str\<close> is modelled as a \<^typ>\<open>string\<close>; each \<^typ>\<open>char\<close> stands for the
  code point of the same number, so the model covers text whose code points are below 256.
  \<open>isspace\<close> is \<open>str.isspace\<close> on one character: in that range the whitespace code points
  are 9 to 13, 28 to 32, 133 and 160.
\<close>

definition isspace :: "char \<Rightarrow> bool" where
  "isspace c = ((of_char c :: nat) \<in> {9, 10, 11, 12, 13, 28, 29, 30, 31, 32, 133, 160})"

definition strip :: "string \<Rightarrow> string" where
  "strip s = rev (dropWhile isspace (rev (dropWhile isspace s)))"

text \<open>\<open>startswith s p\<close> is \<open>s.startswith(p)\<close>, \<open>contains s p\<close> is \<open>p in s\<close>.\<close>

fun startswith :: "string \<Rightarrow> string \<Rightarrow> bool" where
  "startswith s [] = True"
| "startswith [] (p # ps) = False"
| "startswith (c # cs) (p # ps) = (c = p \<and> startswith cs ps)"

fun contains :: "string \<Rightarrow> string \<Rightarrow> bool" where
  "contains [] p = (p = [])"
| "contains (c # cs) p = (startswith (c # cs) p \<or> contains cs p)"

text \<open>
  \<open>split_from sep acc s\<close> is the loop of \<open>s.split(sep)\<close> for a non-empty separator: the
  text is cut at the leftmost occurrences of \<open>sep\<close>, which do not overlap; \<open>acc\<close> holds the
  piece being read, reversed.
\<close>

function split_from :: "string \<Rightarrow> string \<Rightarrow> string \<Rightarrow> string list" where
  "split_from sep acc [] = [rev acc]"
| "split_from sep acc (c # cs) =
     (if sep \<noteq> [] \<and> startswith (c # cs) sep
      then rev acc # split_from sep [] (drop (length sep - 1) cs)
      else split_from sep (c # acc) cs)"
  by pat_completeness auto
termination
  by (relation "measure (\<lambda>(sep, acc, s). length s)") auto

definition py_split :: "string \<Rightarrow> string \<Rightarrow> string list" where
  "py_split s sep = split_from sep [] s"

definition newline :: string where
  "newline = [CHR 0x0A]"

section \<open>Code-window parser\<close>

record raw_entry =
  date_range :: string
  activation_code :: string

text \<open>
  The \<open>for line in lines\<close> loop of \<open>parse_html_content\<close>: \<open>result\<close> is the list built so
  far, \<open>current_date_range\<close> the pending range (\<open>None\<close> at the start and after each
  \<open>append\<close>). The \<open>elif current_date_range:\<close> test is Python truthiness: neither \<open>None\<close>
  nor the empty string.
\<close>

fun parse_html_content_loop ::
  "string list \<Rightarrow> raw_entry list \<Rightarrow> string option \<Rightarrow> raw_entry list" where
  "parse_html_content_loop [] result current_date_range = result"
| "parse_html_content_loop (l # lines) result current_date_range =
     (let line = strip l in
      if line = [] then parse_html_content_loop lines result current_date_range
      else if contains line '' - ''
      then parse_html_content_loop lines result (Some line)
      else (case current_date_range of
              None \<Rightarrow> parse_html_content_loop lines result current_date_range
            | Some r \<Rightarrow>
                if r \<noteq> []
                then parse_html_content_loop lines
                       (result @ [\<lparr>date_range = r, activation_code = line\<rparr>]) None
                else parse_html_content_loop lines result current_date_range))"

text \<open>
  \<open>soup_find\<close> stands for the HTML library: \<open>BeautifulSoup(html_content,
  "html.parser").find("pre", {"id": "codes"})\<close>, giving the \<open>text\<close> of the element found,
  or \<open>None\<close> when the page has no such element. An element is truthy whatever it holds, so
  \<open>not pre_element\<close> holds for \<open>None\<close> only.
\<close>

definition parse_html_content :: "(string \<Rightarrow> string option) \<Rightarrow> string \<Rightarrow> raw_entry list" where
  "parse_html_content soup_find html_content =
     (case soup_find html_content of
        None \<Rightarrow> []
      | Some text \<Rightarrow> parse_html_content_loop (py_split (strip text) newline) [] None)"

text \<open>
  The parser as the specification words it, over the trimmed non-blank lines: a range line
  followed by a line that is not a range line gives one entry; a range line followed by
  another range line, or by nothing, gives none; any other line is skipped.
\<close>

definition is_range_line :: "string \<Rightarrow> bool" where
  "is_range_line l = contains l '' - ''"

definition significant_lines :: "string list \<Rightarrow> string list" where
  "significant_lines lines = filter (\<lambda>l. l \<noteq> []) (map strip lines)"

fun spec_pairs :: "string list \<Rightarrow> raw_entry list" where
  "spec_pairs (r # c # rest) =
     (if is_range_line r
      then (if is_range_line c then spec_pairs (c # rest)
            else \<lparr>date_range = r, activation_code = c\<rparr> # spec_pairs rest)
      else spec_pairs (c # rest))"
| "spec_pairs [r] = []"
| "spec_pairs [] = []"

fun alternating :: "raw_entry list \<Rightarrow> string list" where
  "alternating [] = []"
| "alternating (e # es) = date_range e # activation_code e # alternating es"

definition well_formed_entry :: "raw_entry \<Rightarrow> bool" where
  "well_formed_entry e =
     (strip (date_range e) = date_range e \<and> is_range_line (date_range e) \<and>
      strip (activation_code e) = activation_code e \<and> activation_code e \<noteq> [] \<and>
      \<not> is_range_line (activation_code e))"

definition trimmed :: "string \<Rightarrow> bool" where
  "trimmed s = (s = [] \<or> (\<not> isspace (hd s) \<and> \<not> isspace (last s)))"

section \<open>Exceptions\<close>

text \<open>
  The exceptions a run can raise. \<open>RequestException\<close> stands for the HTTP library's
  exception class and its subclasses (connection errors, \<open>HTTPError\<close>); \<open>OSError\<close> for a
  failing file operation.
\<close>

datatype py_error = ValueError | OverflowError | TypeError | KeyError | OSError | RequestException

section \<open>Dates and times of the host library\<close>

text \<open>
  A \<open>datetime\<close> by its fields. A naive value and a value whose \<open>tzinfo\<close> is
  \<open>timezone.utc\<close> are both held this way; the model never mixes the two in a comparison.
\<close>

record datetime =
  year :: int
  month :: int
  day :: int
  hour :: int
  minute :: int
  second :: int
  microsecond :: int

definition is_leap :: "int \<Rightarrow> bool" where
  "is_leap y = (y mod 4 = 0 \<and> (y mod 100 \<noteq> 0 \<or> y mod 400 = 0))"

definition days_before_year :: "int \<Rightarrow> int" where
  "days_before_year y = (let y1 = y - 1 in y1 * 365 + y1 div 4 - y1 div 100 + y1 div 400)"

text \<open>The tables \<open>_DAYS_IN_MONTH\<close> and \<open>_DAYS_BEFORE_MONTH\<close>, read at a month from 1 to 12.\<close>

definition DAYS_IN_MONTH :: "int list" where
  "DAYS_IN_MONTH = [-1, 31, 28, 31, 30, 31, 30, 31, 31, 30, 31, 30, 31]"

definition DAYS_BEFORE_MONTH :: "int list" where
  "DAYS_BEFORE_MONTH = [-1, 0, 31, 59, 90, 120, 151, 181, 212, 243, 273, 304, 334]"

definition days_in_month :: "int \<Rightarrow> int \<Rightarrow> int" where
  "days_in_month y m = (if m = 2 \<and> is_leap y then 29 else DAYS_IN_MONTH ! nat m)"

definition days_before_month :: "int \<Rightarrow> int \<Rightarrow> int" where
  "days_before_month y m = DAYS_BEFORE_MONTH ! nat m + (if m > 2 \<and> is_leap y then 1 else 0)"

definition ymd2ord :: "int \<Rightarrow> int \<Rightarrow> int \<Rightarrow> int" where
  "ymd2ord y m d = days_before_year y + days_before_month y m + d"

definition MAXORDINAL :: int where
  "MAXORDINAL = 3652059"

text \<open>
  \<open>ord2ymd\<close> is the library's \<open>_ord2ymd\<close>: the date of a proleptic Gregorian ordinal.
  \<open>month_day\<close> is its last part, the month and the day from the day of the year
  (counted from 0): a first estimate of the month, corrected when it is one too large.
\<close>

definition month_day :: "bool \<Rightarrow> int \<Rightarrow> int \<times> int" where
  "month_day leapyear r1 =
     (let m = (r1 + 50) div 32;
          preceding = DAYS_BEFORE_MONTH ! nat m + (if m > 2 \<and> leapyear then 1 else 0)
      in if preceding > r1
         then (let m' = m - 1;
                   preceding' = preceding -
                     (DAYS_IN_MONTH ! nat m' + (if m' = 2 \<and> leapyear then 1 else 0))
               in (m', r1 - preceding' + 1))
         else (m, r1 - preceding + 1))"

definition ord2ymd :: "int \<Rightarrow> int \<times> int \<times> int" where
  "ord2ymd n =
     (let n0 = n - 1;
          n400 = n0 div 146097; r400 = n0 mod 146097;
          n100 = r400 div 36524; r100 = r400 mod 36524;
          n4 = r100 div 1461; r4 = r100 mod 1461;
          n1 = r4 div 365; r1 = r4 mod 365;
          y = n400 * 400 + 1 + n100 * 100 + n4 * 4 + n1
      in if n1 = 4 \<or> n100 = 4 then (y - 1, 12, 31)
         else (case month_day (n1 = 3 \<and> (n4 \<noteq> 24 \<or> n100 = 3)) r1 of
                 (m, d) \<Rightarrow> (y, m, d)))"

text \<open>
  The checks of the \<open>date\<close> and \<open>datetime\<close> constructors (\<open>_check_date_fields\<close>,
  \<open>_check_time_fields\<close>): each raises \<open>ValueError\<close> on a field out of range.
\<close>

definition check_date_fields :: "int \<Rightarrow> int \<Rightarrow> int \<Rightarrow> bool" where
  "check_date_fields y m d =
     (1 \<le> y \<and> y \<le> 9999 \<and> 1 \<le> m \<and> m \<le> 12 \<and> 1 \<le> d \<and> d \<le> days_in_month y m)"

definition check_time_fields :: "int \<Rightarrow> int \<Rightarrow> int \<Rightarrow> int \<Rightarrow> bool" where
  "check_time_fields h mi s us =
     (0 \<le> h \<and> h \<le> 23 \<and> 0 \<le> mi \<and> mi \<le> 59 \<and> 0 \<le> s \<and> s \<le> 59 \<and> 0 \<le> us \<and> us \<le> 999999)"

definition datetime_new ::
  "int \<Rightarrow> int \<Rightarrow> int \<Rightarrow> int \<Rightarrow> int \<Rightarrow> int \<Rightarrow> int \<Rightarrow> py_error + datetime" where
  "datetime_new y m d h mi s us =
     (if check_date_fields y m d \<and> check_time_fields h mi s us
      then Inr \<lparr>year = y, month = m, day = d, hour = h, minute = mi, second = s,
                microsecond = us\<rparr>
      else Inl ValueError)"

definition valid_datetime :: "datetime \<Rightarrow> bool" where
  "valid_datetime dt =
     (check_date_fields (year dt) (month dt) (day dt) \<and>
      check_time_fields (hour dt) (minute dt) (second dt) (microsecond dt))"

text \<open>
  The place of a value on the time line, in seconds: what the library's subtraction of
  two values measures (their ordinals and their seconds of the day); microseconds apart.
\<close>

definition to_seconds :: "datetime \<Rightarrow> int" where
  "to_seconds dt =
     ymd2ord (year dt) (month dt) (day dt) * 86400 +
     hour dt * 3600 + minute dt * 60 + second dt"

text \<open>
  \<open>datetime_add_seconds dt k\<close> is \<open>dt + timedelta(seconds=k)\<close>: the sum is taken on the
  time line, and a day outside ordinals 1 to \<open>MAXORDINAL\<close> raises \<open>OverflowError\<close>.
\<close>

definition datetime_add_seconds :: "datetime \<Rightarrow> int \<Rightarrow> py_error + datetime" where
  "datetime_add_seconds dt k =
     (let total = to_seconds dt + k;
          days = total div 86400;
          rem = total mod 86400
      in if 0 < days \<and> days \<le> MAXORDINAL
         then (case ord2ymd days of
                 (y, m, d) \<Rightarrow>
                   Inr \<lparr>year = y, month = m, day = d, hour = rem div 3600,
                        minute = rem mod 3600 div 60, second = rem mod 60,
                        microsecond = microsecond dt\<rparr>)
         else Inl OverflowError)"

text \<open>
  Comparison of two values of the same kind is the comparison of their field tuples,
  most significant field first.
\<close>

definition datetime_tuple :: "datetime \<Rightarrow> int list" where
  "datetime_tuple dt =
     [year dt, month dt, day dt, hour dt, minute dt, second dt, microsecond dt]"

fun tuple_le :: "int list \<Rightarrow> int list \<Rightarrow> bool" where
  "tuple_le [] ys = True"
| "tuple_le (x # xs) [] = False"
| "tuple_le (x # xs) (y # ys) = (x < y \<or> (x = y \<and> tuple_le xs ys))"

definition datetime_le :: "datetime \<Rightarrow> datetime \<Rightarrow> bool" where
  "datetime_le a b = tuple_le (datetime_tuple a) (datetime_tuple b)"

subsection \<open>Decimal text\<close>

definition is_digit :: "char \<Rightarrow> bool" where
  "is_digit c = (48 \<le> (of_char c :: nat) \<and> (of_char c :: nat) \<le> 57)"

definition digit_value :: "char \<Rightarrow> int" where
  "digit_value c = int (of_char c) - 48"

definition digit_char :: "int \<Rightarrow> char" where
  "digit_char n = char_of (48 + nat n)"

text \<open>\<open>py_int\<close> is \<open>int(s)\<close> on decimal digits with optional blanks around them.\<close>

definition py_int :: "string \<Rightarrow> int" where
  "py_int s = foldl (\<lambda>acc c. acc * 10 + digit_value c) 0 (strip s)"

text \<open>\<open>decimal n\<close> is \<open>str(n)\<close> for \<open>n\<close> not negative; \<open>zero_pad w n\<close> is \<open>"%0wd" % n\<close>.\<close>

function decimal :: "int \<Rightarrow> string" where
  "decimal n = (if n < 10 then [digit_char n] else decimal (n div 10) @ [digit_char (n mod 10)])"
  by pat_completeness auto
termination
  by (relation "measure nat") auto

definition zero_pad :: "nat \<Rightarrow> int \<Rightarrow> string" where
  "zero_pad w n = (let ds = decimal n in replicate (w - length ds) CHR ''0'' @ ds)"

subsection \<open>Parsing with the pattern \<open>%Y-%m-%d %H:%M:%S\<close>\<close>

text \<open>
  \<open>strptime\<close> turns the format into a regular expression and takes the first match from
  the start of the text that a backtracking matcher finds. Each function below is one piece
  of that expression: applied to a text it lists, in the matcher's order of preference,
  the ways the piece can match a prefix, each as the matched text and what follows it.
\<close>

type_synonym matcher = "string \<Rightarrow> (string \<times> string) list"

fun re_class :: "(char \<Rightarrow> bool) \<Rightarrow> matcher" where
  "re_class P [] = []"
| "re_class P (c # cs) = (if P c then [([c], cs)] else [])"

definition re_seq :: "matcher \<Rightarrow> matcher \<Rightarrow> matcher" where
  "re_seq a b s = concat (map (\<lambda>(x, r). map (\<lambda>(y, r'). (x @ y, r')) (b r)) (a s))"

definition re_alt :: "matcher \<Rightarrow> matcher \<Rightarrow> matcher" where
  "re_alt a b s = a s @ b s"

definition re_chr :: "char \<Rightarrow> matcher" where
  "re_chr c = re_class (\<lambda>x. x = c)"

definition re_range :: "char \<Rightarrow> char \<Rightarrow> matcher" where
  "re_range lo hi = re_class (\<lambda>x. (of_char lo :: nat) \<le> of_char x \<and> (of_char x :: nat) \<le> of_char hi)"

definition re_digit :: matcher where
  "re_digit = re_class is_digit"

text \<open>\<open>\s+\<close>, greedy: the longest run of whitespace first.\<close>

fun re_spaces :: matcher where
  "re_spaces [] = []"
| "re_spaces (c # cs) =
     (if isspace c then map (\<lambda>(x, r). (c # x, r)) (re_spaces cs) @ [([c], cs)] else [])"

text \<open>\<open>%Y\<close> is \<open>\d\d\d\d\<close>.\<close>

definition re_Y :: matcher where
  "re_Y = re_seq re_digit (re_seq re_digit (re_seq re_digit re_digit))"

text \<open>\<open>%m\<close> is \<open>1[0-2]|0[1-9]|[1-9]\<close>.\<close>

definition re_m :: matcher where
  "re_m = re_alt (re_seq (re_chr CHR ''1'') (re_range CHR ''0'' CHR ''2''))
         (re_alt (re_seq (re_chr CHR ''0'') (re_range CHR ''1'' CHR ''9''))
                 (re_range CHR ''1'' CHR ''9''))"

text \<open>\<open>%d\<close> is \<open>3[0-1]|[1-2]\d|0[1-9]|[1-9]| [1-9]\<close>.\<close>

definition re_d :: matcher where
  "re_d = re_alt (re_seq (re_chr CHR ''3'') (re_range CHR ''0'' CHR ''1''))
         (re_alt (re_seq (re_range CHR ''1'' CHR ''2'') re_digit)
         (re_alt (re_seq (re_chr CHR ''0'') (re_range CHR ''1'' CHR ''9''))
         (re_alt (re_range CHR ''1'' CHR ''9'')
                 (re_seq (re_chr CHR '' '') (re_range CHR ''1'' CHR ''9'')))))"

text \<open>\<open>%H\<close> is \<open>2[0-3]|[0-1]\d|\d\<close>.\<close>

definition re_H :: matcher where
  "re_H = re_alt (re_seq (re_chr CHR ''2'') (re_range CHR ''0'' CHR ''3''))
         (re_alt (re_seq (re_range CHR ''0'' CHR ''1'') re_digit) re_digit)"

text \<open>\<open>%M\<close> is \<open>[0-5]\d|\d\<close>.\<close>

definition re_M :: matcher where
  "re_M = re_alt (re_seq (re_range CHR ''0'' CHR ''5'') re_digit) re_digit"

text \<open>\<open>%S\<close> is \<open>6[0-1]|[0-5]\d|\d\<close>.\<close>

definition re_S :: matcher where
  "re_S = re_alt (re_seq (re_chr CHR ''6'') (re_range CHR ''0'' CHR ''1''))
         (re_alt (re_seq (re_range CHR ''0'' CHR ''5'') re_digit) re_digit)"

text \<open>
  The whole expression for \<open>%Y-%m-%d %H:%M:%S\<close> (the blank of the format becomes
  \<open>\s+\<close>): every match, as the six groups and the text left over.
\<close>

definition strptime_matches :: "string \<Rightarrow> (string list \<times> string) list" where
  "strptime_matches s =
     [([gY, gm, gd, gH, gM, gS], r11).
        (gY, r1) \<leftarrow> re_Y s, (u1, r2) \<leftarrow> re_chr CHR ''-'' r1,
        (gm, r3) \<leftarrow> re_m r2, (u2, r4) \<leftarrow> re_chr CHR ''-'' r3,
        (gd, r5) \<leftarrow> re_d r4, (u3, r6) \<leftarrow> re_spaces r5,
        (gH, r7) \<leftarrow> re_H r6, (u4, r8) \<leftarrow> re_chr CHR '':'' r7,
        (gM, r9) \<leftarrow> re_M r8, (u5, r10) \<leftarrow> re_chr CHR '':'' r9,
        (gS, r11) \<leftarrow> re_S r10]"

text \<open>
  \<open>datetime.strptime(s, "%Y-%m-%d %H:%M:%S")\<close>: no match, text left over after the first
  match, a date that does not exist and a second above 59 each raise \<open>ValueError\<close>.
\<close>

definition strptime :: "string \<Rightarrow> py_error + datetime" where
  "strptime s =
     (case strptime_matches s of
        [] \<Rightarrow> Inl ValueError
      | (groups, rest) # _ \<Rightarrow>
          if rest \<noteq> [] then Inl ValueError
          else datetime_new (py_int (groups ! 0)) (py_int (groups ! 1)) (py_int (groups ! 2))
                 (py_int (groups ! 3)) (py_int (groups ! 4)) (py_int (groups ! 5)) 0)"

text \<open>\<open>isoformat\<close> with the default separator and \<open>timespec\<close>.\<close>

definition isoformat :: "datetime \<Rightarrow> string" where
  "isoformat dt =
     zero_pad 4 (year dt) @ ''-'' @ zero_pad 2 (month dt) @ ''-'' @ zero_pad 2 (day dt) @ ''T'' @
     zero_pad 2 (hour dt) @ '':'' @ zero_pad 2 (minute dt) @ '':'' @ zero_pad 2 (second dt) @
     (if microsecond dt \<noteq> 0 then ''.'' @ zero_pad 6 (microsecond dt) else [])"

text \<open>
  \<open>datetime.fromisoformat\<close> on the shape \<open>isoformat\<close> gives a value without microseconds:
  nineteen characters \<open>YYYY-MM-DD?HH:MM:SS\<close>, any single character as the separator of
  date and time. The library reads further ISO 8601 shapes as well; they are outside this
  model, which answers \<open>ValueError\<close> for them, and \<open>main\<close> passes none of them.
\<close>

definition fromisoformat :: "string \<Rightarrow> py_error + datetime" where
  "fromisoformat s =
     (if length s = 19 \<and> list_all is_digit (take 4 s) \<and> s ! 4 = CHR ''-'' \<and>
         list_all is_digit (take 2 (drop 5 s)) \<and> s ! 7 = CHR ''-'' \<and>
         list_all is_digit (take 2 (drop 8 s)) \<and>
         list_all is_digit (take 2 (drop 11 s)) \<and> s ! 13 = CHR '':'' \<and>
         list_all is_digit (take 2 (drop 14 s)) \<and> s ! 16 = CHR '':'' \<and>
         list_all is_digit (take 2 (drop 17 s))
      then datetime_new (py_int (take 4 s)) (py_int (take 2 (drop 5 s)))
             (py_int (take 2 (drop 8 s))) (py_int (take 2 (drop 11 s)))
             (py_int (take 2 (drop 14 s))) (py_int (take 2 (drop 17 s))) 0
      else Inl ValueError)"

section \<open>Date normalizer\<close>

definition format_date :: "string \<Rightarrow> py_error + string" where
  "format_date date_str =
     (case strptime date_str of Inl e \<Rightarrow> Inl e | Inr dt \<Rightarrow> Inr (isoformat dt))"

text \<open>
  \<open>convert_to_utc\<close>: the parsed value gets the fixed offset of eight hours
  (\<open>replace(tzinfo=timezone(timedelta(hours=8)))\<close>), and \<open>astimezone(timezone.utc)\<close>
  subtracts that offset; the result is the value in UTC.
\<close>

definition astimezone_utc :: "datetime \<Rightarrow> int \<Rightarrow> py_error + datetime" where
  "astimezone_utc date_obj utcoffset = datetime_add_seconds date_obj (- utcoffset)"

definition convert_to_utc :: "string \<Rightarrow> py_error + datetime" where
  "convert_to_utc date_string =
     (case fromisoformat date_string of
        Inl e \<Rightarrow> Inl e
      | Inr date_obj \<Rightarrow> astimezone_utc date_obj (8 * 3600))"

section \<open>JSON text of the key list\<close>

text \<open>
  The dictionaries this program builds and reads back have text keys and text values. One
  is modelled as the list of its items in insertion order, with distinct keys.
\<close>

type_synonym pydict = "(string \<times> string) list"

definition dict_getitem :: "pydict \<Rightarrow> string \<Rightarrow> py_error + string" where
  "dict_getitem d k = (case map_of d k of None \<Rightarrow> Inl KeyError | Some v \<Rightarrow> Inr v)"

text \<open>\<open>d[k] = v\<close>: a key already present keeps its place and takes the new value.\<close>

fun dict_setitem :: "pydict \<Rightarrow> string \<Rightarrow> string \<Rightarrow> pydict" where
  "dict_setitem [] k v = [(k, v)]"
| "dict_setitem ((k', v') # d) k v =
     (if k' = k then (k, v) # d else (k', v') # dict_setitem d k v)"

definition dict_of_pairs :: "(string \<times> string) list \<Rightarrow> pydict" where
  "dict_of_pairs pairs = foldl (\<lambda>d (k, v). dict_setitem d k v) [] pairs"

abbreviation DQUOTE :: char where
  "DQUOTE \<equiv> CHR 0x22"

abbreviation BACKSLASH :: char where
  "BACKSLASH \<equiv> CHR 0x5C"

subsection \<open>Writing: \<open>json.dumps(formatted_data, indent=2)\<close>\<close>

definition hexdigit :: "nat \<Rightarrow> char" where
  "hexdigit k = ''0123456789abcdef'' ! k"

definition hex4 :: "nat \<Rightarrow> string" where
  "hex4 n = [hexdigit (n div 4096 mod 16), hexdigit (n div 256 mod 16),
             hexdigit (n div 16 mod 16), hexdigit (n mod 16)]"

text \<open>
  The encoder escapes the backslash, the double quote and every character outside the
  printable ASCII range (\<open>ensure_ascii\<close> is on by default).
\<close>

definition json_escape_char :: "char \<Rightarrow> string" where
  "json_escape_char c =
     (if c = BACKSLASH then [BACKSLASH, BACKSLASH]
      else if c = DQUOTE then [BACKSLASH, DQUOTE]
      else if c = CHR 0x08 then [BACKSLASH, CHR ''b'']
      else if c = CHR 0x0C then [BACKSLASH, CHR ''f'']
      else if c = CHR 0x0A then [BACKSLASH, CHR ''n'']
      else if c = CHR 0x0D then [BACKSLASH, CHR ''r'']
      else if c = CHR 0x09 then [BACKSLASH, CHR ''t'']
      else if (of_char c :: nat) < 32 \<or> 126 < (of_char c :: nat)
      then BACKSLASH # CHR ''u'' # hex4 (of_char c)
      else [c])"

definition encode_basestring_ascii :: "string \<Rightarrow> string" where
  "encode_basestring_ascii s = DQUOTE # concat (map json_escape_char s) @ [DQUOTE]"

fun join :: "string \<Rightarrow> string list \<Rightarrow> string" where
  "join sep [] = []"
| "join sep [x] = x"
| "join sep (x # y # ys) = x @ sep @ join sep (y # ys)"

definition dump_item :: "string \<times> string \<Rightarrow> string" where
  "dump_item kv = encode_basestring_ascii (fst kv) @ '': '' @ encode_basestring_ascii (snd kv)"

text \<open>
  With \<open>indent=2\<close> the items of a container are separated by a comma, a line break and
  the indentation of their level: four blanks for the members of a dictionary in the list,
  two for the dictionaries themselves.
\<close>

definition members_sep :: string where
  "members_sep = '','' @ newline @ ''    ''"

definition elements_sep :: string where
  "elements_sep = '','' @ newline @ ''  ''"

definition dump_dict :: "pydict \<Rightarrow> string" where
  "dump_dict d =
     (if d = [] then ''{}''
      else ''{'' @ newline @ ''    '' @ join members_sep (map dump_item d) @
           newline @ ''  '' @ ''}'')"

definition json_dumps :: "pydict list \<Rightarrow> string" where
  "json_dumps ds =
     (if ds = [] then ''[]''
      else ''['' @ newline @ ''  '' @ join elements_sep (map dump_dict ds) @
           newline @ '']'')"

subsection \<open>Reading: \<open>json.loads\<close>\<close>

text \<open>
  The decoder, for the documents this program writes: a list of objects whose members are
  strings. A document holding any other kind of value is outside this model, which answers
  \<open>ValueError\<close> for it, as the decoder does for text that is not JSON (\<open>JSONDecodeError\<close>
  is a \<open>ValueError\<close>). The same holds for an escape \<open>\uXXXX\<close> of a code point above 255.
\<close>

definition json_ws :: "char \<Rightarrow> bool" where
  "json_ws c = (c = CHR '' '' \<or> c = CHR 0x09 \<or> c = CHR 0x0A \<or> c = CHR 0x0D)"

definition skip_ws :: "string \<Rightarrow> string" where
  "skip_ws s = dropWhile json_ws s"

definition hexval :: "char \<Rightarrow> nat option" where
  "hexval c =
     (let n = (of_char c :: nat) in
      if 48 \<le> n \<and> n \<le> 57 then Some (n - 48)
      else if 97 \<le> n \<and> n \<le> 102 then Some (n - 87)
      else if 65 \<le> n \<and> n \<le> 70 then Some (n - 55)
      else None)"

text \<open>\<open>decode_uXXXX s\<close> reads the four hexadecimal digits that follow \<open>\u\<close>.\<close>

definition decode_uXXXX :: "string \<Rightarrow> char option" where
  "decode_uXXXX s =
     (case s of
        a # b # c # d # rest \<Rightarrow>
          (case (hexval a, hexval b, hexval c, hexval d) of
             (Some x3, Some x2, Some x1, Some x0) \<Rightarrow>
               (let uni = ((x3 * 16 + x2) * 16 + x1) * 16 + x0
                in if uni < 256 then Some (char_of uni) else None)
           | _ \<Rightarrow> None)
      | _ \<Rightarrow> None)"

definition BACKSLASH_table :: "char \<Rightarrow> char option" where
  "BACKSLASH_table esc =
     (if esc = DQUOTE then Some DQUOTE
      else if esc = BACKSLASH then Some BACKSLASH
      else if esc = CHR ''/'' then Some CHR ''/''
      else if esc = CHR ''b'' then Some (CHR 0x08)
      else if esc = CHR ''f'' then Some (CHR 0x0C)
      else if esc = CHR ''n'' then Some (CHR 0x0A)
      else if esc = CHR ''r'' then Some (CHR 0x0D)
      else if esc = CHR ''t'' then Some (CHR 0x09)
      else None)"

text \<open>
  \<open>scanstring chunks s\<close> reads a string whose opening quote has been consumed: it returns
  the decoded text and what follows the closing quote. \<open>chunks\<close> holds what has been
  decoded, reversed.
\<close>

fun scanstring :: "string \<Rightarrow> string \<Rightarrow> py_error + (string \<times> string)" where
  "scanstring chunks [] = Inl ValueError"
| "scanstring chunks (c # cs) =
     (if c = DQUOTE then Inr (rev chunks, cs)
      else if c = BACKSLASH then
        (case cs of
           [] \<Rightarrow> Inl ValueError
         | esc # cs' \<Rightarrow>
             if esc = CHR ''u'' then
               (case decode_uXXXX cs' of
                  None \<Rightarrow> Inl ValueError
                | Some ch \<Rightarrow> scanstring (ch # chunks) (drop 4 cs'))
             else
               (case BACKSLASH_table esc of
                  None \<Rightarrow> Inl ValueError
                | Some ch \<Rightarrow> scanstring (ch # chunks) cs'))
      else if (of_char c :: nat) < 32 then Inl ValueError
      else scanstring (c # chunks) cs)"

text \<open>
  The member loop of \<open>JSONObject\<close>, entered after the opening quote of a key. The first
  argument bounds the number of members read; \<open>json_loads\<close> passes the length of the
  document, which no document reaches.
\<close>

fun parse_members ::
  "nat \<Rightarrow> string \<Rightarrow> (string \<times> string) list \<Rightarrow> py_error + ((string \<times> string) list \<times> string)" where
  "parse_members 0 s pairs = Inl ValueError"
| "parse_members (Suc n) s pairs =
     (case scanstring [] s of
        Inl e \<Rightarrow> Inl e
      | Inr (key, r1) \<Rightarrow>
          (case (if startswith r1 '':'' then r1 else skip_ws r1) of
             [] \<Rightarrow> Inl ValueError
           | c2 # r3 \<Rightarrow>
               if c2 \<noteq> CHR '':'' then Inl ValueError
               else
                 (case skip_ws r3 of
                    [] \<Rightarrow> Inl ValueError
                  | c4 # r5 \<Rightarrow>
                      if c4 \<noteq> DQUOTE then Inl ValueError
                      else
                        (case scanstring [] r5 of
                           Inl e \<Rightarrow> Inl e
                         | Inr (v, r6) \<Rightarrow>
                             (case skip_ws r6 of
                                [] \<Rightarrow> Inl ValueError
                              | c7 # r8 \<Rightarrow>
                                  if c7 = CHR ''}'' then Inr (pairs @ [(key, v)], r8)
                                  else if c7 \<noteq> CHR '','' then Inl ValueError
                                  else
                                    (case skip_ws r8 of
                                       [] \<Rightarrow> Inl ValueError
                                     | c9 # r10 \<Rightarrow>
                                         if c9 \<noteq> DQUOTE then Inl ValueError
                                         else parse_members n r10 (pairs @ [(key, v)])))))))"

text \<open>\<open>JSONObject\<close>, entered after the opening brace.\<close>

definition JSONObject :: "nat \<Rightarrow> string \<Rightarrow> py_error + (pydict \<times> string)" where
  "JSONObject fuel s =
     (case skip_ws s of
        [] \<Rightarrow> Inl ValueError
      | c # r \<Rightarrow>
          if c = CHR ''}'' then Inr ([], r)
          else if c \<noteq> DQUOTE then Inl ValueError
          else (case parse_members fuel r [] of
                  Inl e \<Rightarrow> Inl e
                | Inr (pairs, r') \<Rightarrow> Inr (dict_of_pairs pairs, r')))"

text \<open>The value loop of \<open>JSONArray\<close>, entered at the start of a value.\<close>

fun parse_elements ::
  "nat \<Rightarrow> string \<Rightarrow> pydict list \<Rightarrow> py_error + (pydict list \<times> string)" where
  "parse_elements 0 s vals = Inl ValueError"
| "parse_elements (Suc n) s vals =
     (case s of
        [] \<Rightarrow> Inl ValueError
      | c # r \<Rightarrow>
          if c \<noteq> CHR ''{'' then Inl ValueError
          else
            (case JSONObject (length r) r of
               Inl e \<Rightarrow> Inl e
             | Inr (d, r1) \<Rightarrow>
                 (case skip_ws r1 of
                    [] \<Rightarrow> Inl ValueError
                  | c2 # r3 \<Rightarrow>
                      if c2 = CHR '']'' then Inr (vals @ [d], r3)
                      else if c2 \<noteq> CHR '','' then Inl ValueError
                      else parse_elements n (skip_ws r3) (vals @ [d]))))"

text \<open>\<open>JSONArray\<close>, entered after the opening bracket.\<close>

definition JSONArray :: "string \<Rightarrow> py_error + (pydict list \<times> string)" where
  "JSONArray s =
     (case skip_ws s of
        [] \<Rightarrow> Inl ValueError
      | c # r \<Rightarrow>
          if c = CHR '']'' then Inr ([], r)
          else parse_elements (length (c # r)) (c # r) [])"

definition json_loads :: "string \<Rightarrow> py_error + pydict list" where
  "json_loads s =
     (case skip_ws s of
        [] \<Rightarrow> Inl ValueError
      | c # r \<Rightarrow>
          if c \<noteq> CHR ''['' then Inl ValueError
          else (case JSONArray r of
                  Inl e \<Rightarrow> Inl e
                | Inr (vals, r') \<Rightarrow> if skip_ws r' = [] then Inr vals else Inl ValueError))"

section \<open>Building the key list\<close>

text \<open>
  The loop of \<open>create_json_object\<close>. Unpacking the split range into two names raises
  \<open>ValueError\<close> unless the split gives exactly two pieces.
\<close>

fun create_json_object_loop :: "raw_entry list \<Rightarrow> pydict list \<Rightarrow> py_error + pydict list" where
  "create_json_object_loop [] formatted_data = Inr formatted_data"
| "create_json_object_loop (item # parsed_data) formatted_data =
     (case py_split (date_range item) '' - '' of
        [start_date, end_date] \<Rightarrow>
          (case format_date start_date of
             Inl e \<Rightarrow> Inl e
           | Inr s \<Rightarrow>
               (case format_date end_date of
                  Inl e \<Rightarrow> Inl e
                | Inr e \<Rightarrow>
                    create_json_object_loop parsed_data
                      (formatted_data @
                       [[(''start_date'', s), (''end_date'', e),
                         (''activation_code'', activation_code item)]])))
      | _ \<Rightarrow> Inl ValueError)"

definition create_json_object :: "raw_entry list \<Rightarrow> py_error + string" where
  "create_json_object parsed_data =
     (case create_json_object_loop parsed_data [] of
        Inl e \<Rightarrow> Inl e
      | Inr formatted_data \<Rightarrow> Inr (json_dumps formatted_data))"

section \<open>The run\<close>

text \<open>
  What a run meets outside the program: the outcome of the HTTP request (an exception of
  the HTTP library, or a response with its status code and text), the HTML library's
  search of the page, the content of \<open>keys.json\<close> before the run (\<open>None\<close> when the
  file does not exist), whether the two files can be written, the clock, the command-line
  flag, what \<open>is_filecxx_running\<close> finds, and the positions (left, top) of the windows
  carrying the activation title.
\<close>

datatype http_result = RequestFailed | Response int string

record env =
  http :: http_result
  page_find :: "string \<Rightarrow> string option"
  keys_json :: "string option"
  keys_json_writable :: bool
  key_txt_writable :: bool
  now_utc :: datetime
  automatic_mode :: bool
  filecxx_running :: bool
  window_list :: "(int \<times> int) list"

text \<open>
  What a run does to the outside, in order. The message boxes are named by their texts'
  meaning; only the \<open>logging.exception\<close> and \<open>logging.error\<close> calls are recorded (the
  debug lines are left out).
\<close>

datatype alert =
  ConnectFailed | WriteKeysFailed | NoValidCode | FilecxxNotRunning | WindowNotFound | CodeCopied

datatype effect =
  Alert alert
| LogException string
| LogError string
| WriteFile string string
| ClipboardCopy string
| WindowActivate
| Click int int
| Hotkey "string list"
| Typewrite string

datatype outcome = Returned | Raised py_error

text \<open>
  \<open>build_cached_data\<close>: the effects of the call and its result, the JSON text, \<open>None\<close>,
  or an exception that it does not catch. \<open>raise_for_status\<close> raises for a status from 400
  to 599; only the HTTP library's exceptions are caught.
\<close>

definition build_cached_data :: "env \<Rightarrow> effect list \<times> (py_error + string option)" where
  "build_cached_data e =
     (case http e of
        RequestFailed \<Rightarrow>
          ([LogException ''Failed to connect to the server'', Alert ConnectFailed], Inr None)
      | Response status_code text \<Rightarrow>
          if 400 \<le> status_code \<and> status_code < 600
          then ([LogException ''Failed to connect to the server'', Alert ConnectFailed],
                Inr None)
          else if status_code = 200
          then (case create_json_object (parse_html_content (page_find e) text) of
                  Inl err \<Rightarrow> ([], Inl err)
                | Inr json_object \<Rightarrow> ([], Inr (Some json_object)))
          else ([], Inr None))"

definition write_keys_to_file :: "env \<Rightarrow> string \<Rightarrow> effect list" where
  "write_keys_to_file e keys_data =
     (if keys_json_writable e then [WriteFile ''keys.json'' keys_data]
      else [LogException ''Failed to write keys to file'', Alert WriteKeysFailed])"

text \<open>
  One branch of the \<open>if os.path.exists("./keys.json")\<close> statement of \<open>main\<close>; the two
  branches have the same text. The result is the value of \<open>cached_data\<close> after it: \<open>None\<close>
  as initialised, or the decoded list.
\<close>

definition fetch_branch :: "env \<Rightarrow> effect list \<times> (py_error + pydict list option)" where
  "fetch_branch e =
     (case build_cached_data e of
        (effs, Inl err) \<Rightarrow> (effs, Inl err)
      | (effs, Inr temp_data) \<Rightarrow>
          (case temp_data of
             None \<Rightarrow> (effs, Inr None)
           | Some t \<Rightarrow>
               if t = [] then (effs, Inr None)
               else (case json_loads t of
                       Inl err \<Rightarrow> (effs @ write_keys_to_file e t, Inl err)
                     | Inr cached_data \<Rightarrow>
                         (effs @ write_keys_to_file e t, Inr (Some cached_data)))))"

definition fetch_cached_data :: "env \<Rightarrow> effect list \<times> (py_error + pydict list option)" where
  "fetch_cached_data e =
     (if keys_json e \<noteq> None then fetch_branch e else fetch_branch e)"

text \<open>
  The selection loop of \<open>main\<close>: the value of \<open>correct_code\<close> after it, or the exception
  that a missing key or a timestamp that cannot be converted raises.
\<close>

fun select_code :: "datetime \<Rightarrow> pydict list \<Rightarrow> py_error + string option" where
  "select_code current_time_utc [] = Inr None"
| "select_code current_time_utc (item # cached_data) =
     (case dict_getitem item ''start_date'' of
        Inl err \<Rightarrow> Inl err
      | Inr sd \<Rightarrow>
          (case convert_to_utc sd of
             Inl err \<Rightarrow> Inl err
           | Inr start_time \<Rightarrow>
               (case dict_getitem item ''end_date'' of
                  Inl err \<Rightarrow> Inl err
                | Inr ed \<Rightarrow>
                    (case convert_to_utc ed of
                       Inl err \<Rightarrow> Inl err
                     | Inr end_time \<Rightarrow>
                         if datetime_le start_time current_time_utc \<and>
                            datetime_le current_time_utc end_time
                         then (case dict_getitem item ''activation_code'' of
                                 Inl err \<Rightarrow> Inl err
                               | Inr code \<Rightarrow> Inr (Some code))
                         else select_code current_time_utc cached_data))))"

text \<open>
  The Selector as \<open>main\<close> acts on it: the loop, then the test \<open>if not correct_code\<close>,
  which takes \<open>None\<close> and the empty string alike for "none found" (\<open>None\<close> here).
\<close>

definition selector :: "datetime \<Rightarrow> pydict list \<Rightarrow> py_error + string option" where
  "selector current_time_utc cached_data =
     (case select_code current_time_utc cached_data of
        Inl err \<Rightarrow> Inl err
      | Inr None \<Rightarrow> Inr None
      | Inr (Some code) \<Rightarrow> if code = [] then Inr None else Inr (Some code))"

definition insert_key_automatically :: "env \<Rightarrow> string \<Rightarrow> effect list" where
  "insert_key_automatically e correct_code =
     (if \<not> filecxx_running e then [LogError ''FileCxx is not running'', Alert FilecxxNotRunning]
      else (case window_list e of
              [] \<Rightarrow> [LogError ''FileCxx Activation window not found'', Alert WindowNotFound]
            | (wleft, wtop) # _ \<Rightarrow>
                [WindowActivate, Click (wleft + 30) (wtop + 95), Hotkey [''ctrl'', ''a''],
                 Hotkey [''backspace''], Typewrite (correct_code @ newline)]))"

text \<open>
  \<open>main\<close>: the effects of the run and how it ends. Iterating over \<open>cached_data\<close> when it is
  still \<open>None\<close> raises \<open>TypeError\<close>; a failing write of \<open>key.txt\<close> raises \<open>OSError\<close>;
  neither is caught.
\<close>

definition main :: "env \<Rightarrow> effect list \<times> outcome" where
  "main e =
     (case fetch_cached_data e of
        (effs, Inl err) \<Rightarrow> (effs, Raised err)
      | (effs, Inr None) \<Rightarrow> (effs, Raised TypeError)
      | (effs, Inr (Some cached_data)) \<Rightarrow>
          (case selector (now_utc e) cached_data of
             Inl err \<Rightarrow> (effs, Raised err)
           | Inr None \<Rightarrow> (effs @ [Alert NoValidCode], Returned)
           | Inr (Some correct_code) \<Rightarrow>
               if automatic_mode e
               then (effs @ insert_key_automatically e correct_code, Returned)
               else if key_txt_writable e
               then (effs @ [WriteFile ''key.txt'' correct_code, ClipboardCopy correct_code,
                             Alert CodeCopied], Returned)
               else (effs, Raised OSError)))"

section \<open>Activation windows\<close>

text \<open>
  The specification's \<open>ActivationWindow\<close> of a stored item: its two boundaries converted
  to UTC and its code; \<open>None\<close> when the item lacks a key or a boundary cannot be converted.
  \<open>spec_selector\<close> is the Selector in the specification's words: the code of the first
  window, in sequence order, that contains the instant, both ends included.
\<close>

definition activation_window :: "pydict \<Rightarrow> (datetime \<times> datetime \<times> string) option" where
  "activation_window item =
     (case (dict_getitem item ''start_date'', dict_getitem item ''end_date'',
            dict_getitem item ''activation_code'') of
        (Inr sd, Inr ed, Inr code) \<Rightarrow>
          (case (convert_to_utc sd, convert_to_utc ed) of
             (Inr start_time, Inr end_time) \<Rightarrow> Some (start_time, end_time, code)
           | _ \<Rightarrow> None)
      | _ \<Rightarrow> None)"

definition window_contains :: "datetime \<Rightarrow> datetime \<times> datetime \<times> string \<Rightarrow> bool" where
  "window_contains now w =
     (case w of (start_time, end_time, code) \<Rightarrow>
        datetime_le start_time now \<and> datetime_le now end_time)"

definition spec_selector :: "datetime \<Rightarrow> (datetime \<times> datetime \<times> string) list \<Rightarrow> string option" where
  "spec_selector now ws =
     (case find (window_contains now) ws of
        None \<Rightarrow> None
      | Some (start_time, end_time, code) \<Rightarrow> Some code)"

text \<open>The falsy-code test of \<open>main\<close> applied to a selected code.\<close>

definition truthy_code :: "string option \<Rightarrow> string option" where
  "truthy_code c = (case c of None \<Rightarrow> None | Some code \<Rightarrow> if code = [] then None else Some code)"

section \<open>Stored entries\<close>

text \<open>
  What one pass of the loop of \<open>create_json_object\<close> appends for an entry: the dictionary
  with the keys \<open>start_date\<close>, \<open>end_date\<close> and \<open>activation_code\<close>; \<open>None\<close> when the pass
  raises.
\<close>

definition key_entry :: "raw_entry \<Rightarrow> pydict option" where
  "key_entry item =
     (case py_split (date_range item) '' - '' of
        [start_date, end_date] \<Rightarrow>
          (case (format_date start_date, format_date end_date) of
             (Inr s, Inr e) \<Rightarrow>
               Some [(''start_date'', s), (''end_date'', e),
                     (''activation_code'', activation_code item)]
           | _ \<Rightarrow> None)
      | _ \<Rightarrow> None)"

text \<open>
  The shape of an ISO 8601 timestamp with second precision and no time zone suffix:
  \<open>YYYY-MM-DDTHH:MM:SS\<close>, nineteen characters.
\<close>

definition iso_seconds_shape :: "string \<Rightarrow> bool" where
  "iso_seconds_shape s =
     (length s = 19 \<and> list_all is_digit (take 4 s) \<and> s ! 4 = CHR ''-'' \<and>
      list_all is_digit (take 2 (drop 5 s)) \<and> s ! 7 = CHR ''-'' \<and>
      list_all is_digit (take 2 (drop 8 s)) \<and> s ! 10 = CHR ''T'' \<and>
      list_all is_digit (take 2 (drop 11 s)) \<and> s ! 13 = CHR '':'' \<and>
      list_all is_digit (take 2 (drop 14 s)) \<and> s ! 16 = CHR '':'' \<and>
      list_all is_digit (take 2 (drop 17 s)))"

section \<open>Properties of the text primitives\<close>

lemma dropWhile_id: "xs = [] \<or> \<not> P (hd xs) \<Longrightarrow> dropWhile P xs = xs"
  by (cases xs) auto

lemma last_dropWhile: "dropWhile P xs \<noteq> [] \<Longrightarrow> last (dropWhile P xs) = last xs"
  by (induction xs) (auto split: if_splits)

lemma strip_trimmed: "trimmed s \<Longrightarrow> strip s = s"
  unfolding trimmed_def strip_def
  by (cases "s = []") (auto simp: dropWhile_id hd_rev)

lemma trimmed_strip: "trimmed (strip s)"
proof -
  let ?u = "dropWhile isspace s"
  let ?v = "dropWhile isspace (rev ?u)"
  show ?thesis
  proof (cases "?v = []")
    case True
    then show ?thesis by (simp add: trimmed_def strip_def)
  next
    case False
    then have v: "\<not> isspace (hd ?v)" by (rule hd_dropWhile)
    from False have "last ?v = last (rev ?u)" by (rule last_dropWhile)
    moreover have u: "?u \<noteq> []"
    proof
      assume "?u = []"
      then have "?v = []" by (simp del: dropWhile_eq_Nil_conv)
      with False show False ..
    qed
    then have "\<not> isspace (hd ?u)" by (rule hd_dropWhile)
    ultimately have "\<not> isspace (last ?v)" using u by (simp add: last_rev)
    with v False show ?thesis by (simp add: trimmed_def strip_def hd_rev last_rev)
  qed
qed

lemma strip_idem: "strip (strip s) = strip s"
  by (rule strip_trimmed [OF trimmed_strip])

section \<open>The parser's scan\<close>

lemma loop_result_append:
  "parse_html_content_loop lines result cur = result @ parse_html_content_loop lines [] cur"
proof (induction lines arbitrary: result cur)
  case Nil
  then show ?case by simp
next
  case (Cons l lines)
  show ?case
    using Cons.IH [of "result @ [\<lparr>date_range = the cur, activation_code = strip l\<rparr>]" None]
      Cons.IH [of "[\<lparr>date_range = the cur, activation_code = strip l\<rparr>]" None]
      Cons.IH [of result cur] Cons.IH [of result "Some (strip l)"]
    by (auto simp: Let_def split: option.splits)
qed

lemma spec_pairs_skip: "\<not> is_range_line c \<Longrightarrow> spec_pairs (c # rest) = spec_pairs rest"
  by (cases rest) auto

lemma loop_refines_spec:
  "parse_html_content_loop lines [] None = spec_pairs (significant_lines lines)"
  "is_range_line r \<Longrightarrow>
     parse_html_content_loop lines [] (Some r) = spec_pairs (r # significant_lines lines)"
proof (induction lines arbitrary: r)
  case Nil
  { case 1 show ?case by (simp add: significant_lines_def) }
  { case 2 show ?case by (simp add: significant_lines_def) }
next
  case (Cons l lines)
  { case 1
    show ?case
      using Cons.IH(1) Cons.IH(2) [of "strip l"]
      by (auto simp: Let_def significant_lines_def is_range_line_def spec_pairs_skip) }
  { case 2
    then have "r \<noteq> []" by (auto simp: is_range_line_def)
    with 2 show ?case
      using Cons.IH(1) Cons.IH(2) [of "strip l"] Cons.IH(2) [of r]
        loop_result_append [of lines "[\<lparr>date_range = r, activation_code = strip l\<rparr>]" None]
      by (auto simp: Let_def significant_lines_def is_range_line_def spec_pairs_skip) }
qed

lemma significant_alternating:
  "list_all well_formed_entry es \<Longrightarrow> significant_lines (alternating es) = alternating es"
proof (induction es)
  case Nil
  then show ?case by (simp add: significant_lines_def)
next
  case (Cons e es)
  then have "is_range_line (date_range e)" and e: "well_formed_entry e"
    by (simp_all add: well_formed_entry_def)
  then have "date_range e \<noteq> []" by (auto simp: is_range_line_def)
  with Cons e show ?case by (simp add: significant_lines_def well_formed_entry_def)
qed

lemma spec_pairs_alternating:
  "list_all well_formed_entry es \<Longrightarrow> spec_pairs (alternating es) = es"
  by (induction es) (simp_all add: well_formed_entry_def)

lemma spec_pairs_stale:
  "is_range_line r1 \<Longrightarrow> is_range_line r2 \<Longrightarrow>
     spec_pairs (xs @ r1 # r2 # rest) = spec_pairs (xs @ r2 # rest)"
  by (induction xs rule: spec_pairs.induct) auto

lemma spec_pairs_trailing:
  "is_range_line r \<Longrightarrow> spec_pairs (xs @ [r]) = spec_pairs xs"
  by (induction xs rule: spec_pairs.induct) auto

lemma significant_lines_append:
  "significant_lines (xs @ ys) = significant_lines xs @ significant_lines ys"
  by (simp add: significant_lines_def)

lemma significant_lines_Nil: "significant_lines [] = []"
  by (simp add: significant_lines_def)

lemma significant_lines_range:
  "is_range_line (strip r) \<Longrightarrow> significant_lines (r # ls) = strip r # significant_lines ls"
  by (auto simp: significant_lines_def is_range_line_def)

text \<open>
  Claim C2. For every text block the scan of \<open>parse_html_content\<close> does what the
  specification's two-state scan says: over the trimmed, non-blank lines, a line containing
  \<open>" - "\<close> becomes the pending range and the next line that is not itself a range line is
  emitted with it. Hence a block of alternating well-formed range and code lines gives
  exactly its pairs, in order; of two range lines with no code line between them the
  earlier gives no entry; and a range line at the end of the input gives no entry.
\<close>

theorem parser_two_state_scan:
  "parse_html_content soup_find html =
     (case soup_find html of
        None \<Rightarrow> []
      | Some text \<Rightarrow> spec_pairs (significant_lines (py_split (strip text) newline)))
   \<and> parse_html_content_loop lines [] None = spec_pairs (significant_lines lines)
   \<and> (list_all well_formed_entry es \<longrightarrow>
        parse_html_content_loop (alternating es) [] None = es)
   \<and> (is_range_line (strip r1) \<and> is_range_line (strip r2) \<longrightarrow>
        parse_html_content_loop (lines @ r1 # r2 # rest) [] None =
        parse_html_content_loop (lines @ r2 # rest) [] None)
   \<and> (is_range_line (strip r) \<longrightarrow>
        parse_html_content_loop (lines @ [r]) [] None =
        parse_html_content_loop lines [] None)"
proof (intro conjI impI)
  show "parse_html_content soup_find html =
     (case soup_find html of
        None \<Rightarrow> []
      | Some text \<Rightarrow> spec_pairs (significant_lines (py_split (strip text) newline)))"
    by (simp add: parse_html_content_def loop_refines_spec(1) split: option.splits)
  show "parse_html_content_loop lines [] None = spec_pairs (significant_lines lines)"
    by (rule loop_refines_spec(1))
  show "parse_html_content_loop (alternating es) [] None = es"
    if "list_all well_formed_entry es"
    using that by (simp add: loop_refines_spec(1) significant_alternating spec_pairs_alternating)
  show "parse_html_content_loop (lines @ r1 # r2 # rest) [] None =
        parse_html_content_loop (lines @ r2 # rest) [] None"
    if "is_range_line (strip r1) \<and> is_range_line (strip r2)"
    using that
    by (simp add: loop_refines_spec(1) significant_lines_append significant_lines_range
        spec_pairs_stale)
  show "parse_html_content_loop (lines @ [r]) [] None = parse_html_content_loop lines [] None"
    if "is_range_line (strip r)"
    using that spec_pairs_trailing [of "strip r" "significant_lines lines"]
    by (simp add: loop_refines_spec(1) significant_lines_append significant_lines_range
        significant_lines_Nil)
qed

theorem parser_two_state_scan_witness:
  "list_all well_formed_entry
     [\<lparr>date_range = ''2024-01-01 00:00:00 - 2024-01-02 00:00:00'', activation_code = ''ABCDEF''\<rparr>,
      \<lparr>date_range = ''2024-01-02 00:00:00 - 2024-01-03 00:00:00'', activation_code = ''GHI''\<rparr>]
   \<and> parse_html_content_loop
       [''2024-01-01 00:00:00 - 2024-01-02 00:00:00'', ''ABCDEF'',
        ''2024-01-02 00:00:00 - 2024-01-03 00:00:00'', ''GHI''] [] None =
     [\<lparr>date_range = ''2024-01-01 00:00:00 - 2024-01-02 00:00:00'', activation_code = ''ABCDEF''\<rparr>,
      \<lparr>date_range = ''2024-01-02 00:00:00 - 2024-01-03 00:00:00'', activation_code = ''GHI''\<rparr>]
   \<and> is_range_line (strip '' 1 - 2'') \<and> is_range_line (strip ''3 - 4 '')
   \<and> parse_html_content_loop [''x'', '' 1 - 2'', ''3 - 4 '', ''c''] [] None =
       parse_html_content_loop [''x'', ''3 - 4 '', ''c''] [] None
   \<and> parse_html_content_loop [''x'', '' 1 - 2'', ''c'', ''3 - 4 ''] [] None =
       parse_html_content_loop [''x'', '' 1 - 2'', ''c''] [] None"
proof -
  let ?es = "[\<lparr>date_range = ''2024-01-01 00:00:00 - 2024-01-02 00:00:00'', activation_code = ''ABCDEF''\<rparr>,
      \<lparr>date_range = ''2024-01-02 00:00:00 - 2024-01-03 00:00:00'', activation_code = ''GHI''\<rparr>]"
  have h1: "list_all well_formed_entry ?es"
    by (simp add: well_formed_entry_def is_range_line_def strip_def isspace_def)
  have h2: "is_range_line (strip '' 1 - 2'') \<and> is_range_line (strip ''3 - 4 '')"
    by (simp add: is_range_line_def strip_def isspace_def)
  have a: "parse_html_content_loop (alternating ?es) [] None = ?es"
    using parser_two_state_scan [of "\<lambda>_. None" "[]" "[]" ?es "[]" "[]" "[]" "[]"] h1 by blast
  have b: "parse_html_content_loop ([''x''] @ '' 1 - 2'' # ''3 - 4 '' # [''c'']) [] None =
       parse_html_content_loop ([''x''] @ ''3 - 4 '' # [''c'']) [] None"
    using parser_two_state_scan [of "\<lambda>_. None" "[]" "[''x'']" "[]" "'' 1 - 2''" "''3 - 4 ''"
        "[''c'']" "[]"] h2 by blast
  have c: "parse_html_content_loop ([''x'', '' 1 - 2'', ''c''] @ [''3 - 4 '']) [] None =
       parse_html_content_loop [''x'', '' 1 - 2'', ''c''] [] None"
    using parser_two_state_scan [of "\<lambda>_. None" "[]" "[''x'', '' 1 - 2'', ''c'']" "[]" "[]" "[]"
        "[]" "''3 - 4 ''"] h2 by blast
  from a have a': "parse_html_content_loop
       [''2024-01-01 00:00:00 - 2024-01-02 00:00:00'', ''ABCDEF'',
        ''2024-01-02 00:00:00 - 2024-01-03 00:00:00'', ''GHI''] [] None = ?es"
    by simp
  from b have b': "parse_html_content_loop [''x'', '' 1 - 2'', ''3 - 4 '', ''c''] [] None =
       parse_html_content_loop [''x'', ''3 - 4 '', ''c''] [] None"
    by simp
  from c have c': "parse_html_content_loop [''x'', '' 1 - 2'', ''c'', ''3 - 4 ''] [] None =
       parse_html_content_loop [''x'', '' 1 - 2'', ''c''] [] None"
    by simp
  show ?thesis using h1 h2 a' b' c' by blast
qed

text \<open>
  Claim C9. When the page holds no \<open>pre\<close> element with id \<open>codes\<close>, that is, when the
  search of the parsed page gives \<open>None\<close>, \<open>parse_html_content\<close> returns the empty list; it
  raises nothing.
\<close>

theorem parser_absent_block:
  "soup_find html_content = None \<Longrightarrow> parse_html_content soup_find html_content = []"
  by (simp add: parse_html_content_def)

theorem parser_absent_block_witness:
  "(\<lambda>_. None) ''<html><body>no codes</body></html>'' = (None :: string option) \<and>
   parse_html_content (\<lambda>_. None) ''<html><body>no codes</body></html>'' = []"
  using parser_absent_block [of "\<lambda>_. None" "''<html><body>no codes</body></html>''"] by simp

section \<open>The calendar\<close>

lemma month_day_ok:
  assumes "0 \<le> r" "r \<le> 364" "month_day lp r = (m, d)"
  shows "1 \<le> m \<and> m \<le> 12 \<and> 1 \<le> d \<and>
         DAYS_BEFORE_MONTH ! nat m + (if m > 2 \<and> lp then 1 else 0) + d = r + 1"
proof -
  define k where "k = (r + 50) div 32"
  have kb: "32 * k \<le> r + 50 \<and> r + 50 < 32 * k + 32" unfolding k_def by presburger
  with assms(1,2) have "1 \<le> k \<and> k \<le> 12" by arith
  then consider "k = 1" | "k = 2" | "k = 3" | "k = 4" | "k = 5" | "k = 6" | "k = 7" | "k = 8"
    | "k = 9" | "k = 10" | "k = 11" | "k = 12" by atomize_elim arith
  then show ?thesis
  proof cases
    case 1
    with kb assms show ?thesis
      by (auto simp: month_day_def Let_def k_def [symmetric] DAYS_BEFORE_MONTH_def
          DAYS_IN_MONTH_def split: if_splits)
  next
    case 2
    with kb assms show ?thesis
      by (auto simp: month_day_def Let_def k_def [symmetric] DAYS_BEFORE_MONTH_def
          DAYS_IN_MONTH_def split: if_splits)
  next
    case 3
    with kb assms show ?thesis
      by (auto simp: month_day_def Let_def k_def [symmetric] DAYS_BEFORE_MONTH_def
          DAYS_IN_MONTH_def split: if_splits)
  next
    case 4
    with kb assms show ?thesis
      by (auto simp: month_day_def Let_def k_def [symmetric] DAYS_BEFORE_MONTH_def
          DAYS_IN_MONTH_def split: if_splits)
  next
    case 5
    with kb assms show ?thesis
      by (auto simp: month_day_def Let_def k_def [symmetric] DAYS_BEFORE_MONTH_def
          DAYS_IN_MONTH_def split: if_splits)
  next
    case 6
    with kb assms show ?thesis
      by (auto simp: month_day_def Let_def k_def [symmetric] DAYS_BEFORE_MONTH_def
          DAYS_IN_MONTH_def split: if_splits)
  next
    case 7
    with kb assms show ?thesis
      by (auto simp: month_day_def Let_def k_def [symmetric] DAYS_BEFORE_MONTH_def
          DAYS_IN_MONTH_def split: if_splits)
  next
    case 8
    with kb assms show ?thesis
      by (auto simp: month_day_def Let_def k_def [symmetric] DAYS_BEFORE_MONTH_def
          DAYS_IN_MONTH_def split: if_splits)
  next
    case 9
    with kb assms show ?thesis
      by (auto simp: month_day_def Let_def k_def [symmetric] DAYS_BEFORE_MONTH_def
          DAYS_IN_MONTH_def split: if_splits)
  next
    case 10
    with kb assms show ?thesis
      by (auto simp: month_day_def Let_def k_def [symmetric] DAYS_BEFORE_MONTH_def
          DAYS_IN_MONTH_def split: if_splits)
  next
    case 11
    with kb assms show ?thesis
      by (auto simp: month_day_def Let_def k_def [symmetric] DAYS_BEFORE_MONTH_def
          DAYS_IN_MONTH_def split: if_splits)
  next
    case 12
    with kb assms show ?thesis
      by (auto simp: month_day_def Let_def k_def [symmetric] DAYS_BEFORE_MONTH_def
          DAYS_IN_MONTH_def split: if_splits)
  qed
qed


lemma div_qr: "0 \<le> r \<Longrightarrow> r < k \<Longrightarrow> (k * q + r) div k = (q::int)"
  by (simp add: div_pos_pos_trivial)

lemma mod_qr: "0 \<le> r \<Longrightarrow> r < k \<Longrightarrow> (k * q + r) mod k = (r::int)"
  by (simp add: mod_pos_pos_trivial)

lemma days_before_year_split:
  assumes "0 \<le> b" "b \<le> 3" "0 \<le> c" "c \<le> 24" "0 \<le> e" "e \<le> 3"
  shows "days_before_year (a * 400 + 1 + b * 100 + c * 4 + e) =
         a * 146097 + b * 36524 + c * 1461 + e * 365"
proof -
  let ?y1 = "a * 400 + b * 100 + c * 4 + e"
  have "?y1 = 4 * (a * 100 + b * 25 + c) + (e)" by simp
  then have "?y1 div 4 = (4 * (a * 100 + b * 25 + c) + (e)) div 4"
    by (rule arg_cong [where f = "\<lambda>x. x div 4"])
  also have "\<dots> = a * 100 + b * 25 + c" using assms by (intro div_qr) auto
  finally have d4: "?y1 div 4 = a * 100 + b * 25 + c" .
  have "?y1 = 100 * (a * 4 + b) + (c * 4 + e)" by simp
  then have "?y1 div 100 = (100 * (a * 4 + b) + (c * 4 + e)) div 100"
    by (rule arg_cong [where f = "\<lambda>x. x div 100"])
  also have "\<dots> = a * 4 + b" using assms by (intro div_qr) auto
  finally have d100: "?y1 div 100 = a * 4 + b" .
  have "?y1 = 400 * (a) + (b * 100 + c * 4 + e)" by simp
  then have "?y1 div 400 = (400 * (a) + (b * 100 + c * 4 + e)) div 400"
    by (rule arg_cong [where f = "\<lambda>x. x div 400"])
  also have "\<dots> = a" using assms by (intro div_qr) auto
  finally have d400: "?y1 div 400 = a" .
  have eq: "a * 400 + 1 + b * 100 + c * 4 + e - 1 = ?y1" by simp
  show ?thesis
    unfolding days_before_year_def Let_def eq d4 d100 d400 by simp
qed

lemma is_leap_split:
  assumes "0 \<le> b" "b \<le> 3" "0 \<le> c" "c \<le> 24" "0 \<le> e" "e \<le> 3"
  shows "is_leap (a * 400 + 1 + b * 100 + c * 4 + e) = (e = 3 \<and> (c \<noteq> 24 \<or> b = 3))"
proof -
  let ?y = "a * 400 + 1 + b * 100 + c * 4 + e"
  have m4: "?y mod 4 = (if e = 3 then 0 else e + 1)"
  proof (cases "e = 3")
    case True
    have "?y = 4 * (a * 100 + b * 25 + c + 1) + (0)" using True by simp
    then have "?y mod 4 = (4 * (a * 100 + b * 25 + c + 1) + (0)) mod 4"
      by (rule arg_cong [where f = "\<lambda>x. x mod 4"])
    also have "\<dots> = 0" using assms True by (intro mod_qr) auto
    finally show ?thesis using True by simp
  next
    case False
    have "?y = 4 * (a * 100 + b * 25 + c) + (e + 1)" using False by simp
    then have "?y mod 4 = (4 * (a * 100 + b * 25 + c) + (e + 1)) mod 4"
      by (rule arg_cong [where f = "\<lambda>x. x mod 4"])
    also have "\<dots> = e + 1" using assms False by (intro mod_qr) auto
    finally show ?thesis using False by simp
  qed
  have m100: "?y mod 100 = (if c = 24 \<and> e = 3 then 0 else c * 4 + e + 1)"
  proof (cases "c = 24 \<and> e = 3")
    case True
    have "?y = 100 * (a * 4 + b + 1) + (0)" using True by simp
    then have "?y mod 100 = (100 * (a * 4 + b + 1) + (0)) mod 100"
      by (rule arg_cong [where f = "\<lambda>x. x mod 100"])
    also have "\<dots> = 0" using assms True by (intro mod_qr) auto
    finally show ?thesis using True by simp
  next
    case False
    have "?y = 100 * (a * 4 + b) + (c * 4 + e + 1)" using False by simp
    then have "?y mod 100 = (100 * (a * 4 + b) + (c * 4 + e + 1)) mod 100"
      by (rule arg_cong [where f = "\<lambda>x. x mod 100"])
    also have "\<dots> = c * 4 + e + 1" using assms False by (intro mod_qr) auto
    finally show ?thesis using False by simp
  qed
  have m400: "?y mod 400 = (if b = 3 \<and> c = 24 \<and> e = 3 then 0 else b * 100 + c * 4 + e + 1)"
  proof (cases "b = 3 \<and> c = 24 \<and> e = 3")
    case True
    have "?y = 400 * (a + 1) + (0)" using True by simp
    then have "?y mod 400 = (400 * (a + 1) + (0)) mod 400"
      by (rule arg_cong [where f = "\<lambda>x. x mod 400"])
    also have "\<dots> = 0" using assms True by (intro mod_qr) auto
    finally show ?thesis using True by simp
  next
    case False
    have "?y = 400 * (a) + (b * 100 + c * 4 + e + 1)" using False by simp
    then have "?y mod 400 = (400 * (a) + (b * 100 + c * 4 + e + 1)) mod 400"
      by (rule arg_cong [where f = "\<lambda>x. x mod 400"])
    also have "\<dots> = b * 100 + c * 4 + e + 1" using assms False by (intro mod_qr) auto
    finally show ?thesis using False by simp
  qed
  show ?thesis unfolding is_leap_def m4 m100 m400 using assms by auto
qed


lemma ord2ymd_roundtrip:
  assumes "ord2ymd n = (y, m, d)"
  shows "ymd2ord y m d = n \<and> 1 \<le> m \<and> m \<le> 12 \<and> 1 \<le> d"
proof -
  define a where "a = (n - 1) div 146097"
  define r400 where "r400 = (n - 1) mod 146097"
  define b where "b = r400 div 36524"
  define r100 where "r100 = r400 mod 36524"
  define c where "c = r100 div 1461"
  define r4 where "r4 = r100 mod 1461"
  define e where "e = r4 div 365"
  define r where "r = r4 mod 365"
  have s1: "n - 1 = 146097 * a + r400" "0 \<le> r400" "r400 < 146097"
    unfolding a_def r400_def by simp_all
  have s2: "r400 = 36524 * b + r100" "0 \<le> r100" "r100 < 36524"
    unfolding b_def r100_def by simp_all
  have s3: "r100 = 1461 * c + r4" "0 \<le> r4" "r4 < 1461"
    unfolding c_def r4_def by simp_all
  have s4: "r4 = 365 * e + r" "0 \<le> r" "r < 365"
    unfolding e_def r_def by simp_all
  have bb: "0 \<le> b" "b \<le> 4" using s1 s2 by arith+
  have cb: "0 \<le> c" "c \<le> 24" using s2 s3 by arith+
  have eb: "0 \<le> e" "e \<le> 4" using s3 s4 by arith+
  have o: "ord2ymd n =
     (if e = 4 \<or> b = 4 then (a * 400 + 1 + b * 100 + c * 4 + e - 1, 12, 31)
      else (case month_day (e = 3 \<and> (c \<noteq> 24 \<or> b = 3)) r of
              (m, d) \<Rightarrow> (a * 400 + 1 + b * 100 + c * 4 + e, m, d)))"
    unfolding ord2ymd_def Let_def a_def r400_def b_def r100_def c_def r4_def e_def r_def
    by (rule refl)
  show ?thesis
  proof (cases "b = 4")
    case True
    with s1 s2 s3 s4 cb eb have z: "c = 0" "e = 0" "r = 0" "r100 = 0" "r4 = 0" by arith+
    from o True z assms have y: "y = a * 400 + 1 + 3 * 100 + 24 * 4 + 3" and "m = 12" "d = 31"
      by simp_all
    have "days_before_year y = a * 146097 + 3 * 36524 + 24 * 1461 + 3 * 365"
      unfolding y by (rule days_before_year_split) simp_all
    moreover have "is_leap y" unfolding y by (subst is_leap_split) simp_all
    ultimately show ?thesis using \<open>m = 12\<close> \<open>d = 31\<close> s1 s2 True z
      by (simp add: ymd2ord_def days_before_month_def DAYS_BEFORE_MONTH_def)
  next
    case False
    with bb have b3: "b \<le> 3" by arith
    show ?thesis
    proof (cases "e = 4")
      case True
      with s3 s4 have z: "r = 0" "r4 = 1460" by arith+
      with s2 s3 cb have c23: "c \<le> 23" by arith
      from o True z assms have y: "y = a * 400 + 1 + b * 100 + c * 4 + 3" and "m = 12" "d = 31"
        by simp_all
      have "days_before_year y = a * 146097 + b * 36524 + c * 1461 + 3 * 365"
        unfolding y using bb b3 cb by (intro days_before_year_split) simp_all
      moreover have "is_leap y" unfolding y using bb b3 cb c23 by (subst is_leap_split) simp_all
      ultimately show ?thesis using \<open>m = 12\<close> \<open>d = 31\<close> s1 s2 s3 z
        by (simp add: ymd2ord_def days_before_month_def DAYS_BEFORE_MONTH_def)
    next
      case e4: False
      with eb have e3: "e \<le> 3" by arith
      let ?lp = "e = 3 \<and> (c \<noteq> 24 \<or> b = 3)"
      from o False e4 assms have md: "month_day ?lp r = (m, d)"
        and y: "y = a * 400 + 1 + b * 100 + c * 4 + e"
        by (auto split: prod.splits)
      have dby: "days_before_year y = a * 146097 + b * 36524 + c * 1461 + e * 365"
        unfolding y using bb b3 cb eb e3 by (intro days_before_year_split) simp_all
      have lp: "is_leap y = ?lp"
        unfolding y using bb b3 cb eb e3 by (intro is_leap_split) simp_all
      from s4 have "r \<le> 364" by simp
      from month_day_ok [OF s4(2) this md]
      have mdok: "1 \<le> m \<and> m \<le> 12 \<and> 1 \<le> d \<and>
         DAYS_BEFORE_MONTH ! nat m + (if m > 2 \<and> ?lp then 1 else 0) + d = r + 1" .
      then have "days_before_month y m + d = r + 1"
        unfolding days_before_month_def lp by simp
      then have "ymd2ord y m d = n" using dby s1 s2 s3 s4 by (simp add: ymd2ord_def)
      with mdok show ?thesis by simp
    qed
  qed
qed

lemma hms_recompose:
  fixes rem :: int
  shows "rem div 3600 * 3600 + rem mod 3600 div 60 * 60 + rem mod 60 = rem"
proof -
  have "rem mod 3600 mod 60 = rem mod 60" by (simp add: mod_mod_cancel)
  moreover have "rem mod 3600 = rem mod 3600 div 60 * 60 + rem mod 3600 mod 60" by simp
  moreover have "rem = rem div 3600 * 3600 + rem mod 3600" by simp
  ultimately show ?thesis by linarith
qed


lemma datetime_add_seconds_Inr:
  assumes "datetime_add_seconds dt k = Inr u"
  shows "to_seconds u = to_seconds dt + k \<and> microsecond u = microsecond dt"
proof -
  define total where "total = to_seconds dt + k"
  define days where "days = total div 86400"
  define rem where "rem = total mod 86400"
  obtain y m d where o: "ord2ymd days = (y, m, d)" by (cases "ord2ymd days") auto
  from assms have "(if 0 < days \<and> days \<le> MAXORDINAL
         then (case ord2ymd days of
                 (y, m, d) \<Rightarrow>
                   Inr \<lparr>year = y, month = m, day = d, hour = rem div 3600,
                        minute = rem mod 3600 div 60, second = rem mod 60,
                        microsecond = microsecond dt\<rparr>)
         else Inl OverflowError) = Inr u"
    unfolding datetime_add_seconds_def Let_def total_def days_def rem_def .
  then have u: "u = \<lparr>year = y, month = m, day = d, hour = rem div 3600,
      minute = rem mod 3600 div 60, second = rem mod 60, microsecond = microsecond dt\<rparr>"
    unfolding o by (simp split: if_splits)
  from ord2ymd_roundtrip [OF o] have r: "ymd2ord y m d = days" by simp
  have "to_seconds u =
      ymd2ord y m d * 86400 + (rem div 3600 * 3600 + rem mod 3600 div 60 * 60 + rem mod 60)"
    unfolding u to_seconds_def by (simp only: datetime.select_convs add.assoc)
  also have "\<dots> = days * 86400 + rem" unfolding r hms_recompose ..
  also have "\<dots> = total" unfolding days_def rem_def by simp
  finally have "to_seconds u = to_seconds dt + k" unfolding total_def .
  moreover have "microsecond u = microsecond dt" unfolding u by simp
  ultimately show ?thesis ..
qed


lemma datetime_add_seconds_returns:
  assumes "86400 \<le> to_seconds dt + k" "(to_seconds dt + k) div 86400 \<le> MAXORDINAL"
  shows "\<exists>u. datetime_add_seconds dt k = Inr u"
proof -
  define total where "total = to_seconds dt + k"
  define days where "days = total div 86400"
  define rem where "rem = total mod 86400"
  obtain y m d where o: "ord2ymd days = (y, m, d)" by (cases "ord2ymd days") auto
  have "0 < days" unfolding days_def using assms(1) total_def
    by (simp add: pos_imp_zdiv_pos_iff)
  moreover have "days \<le> MAXORDINAL" unfolding days_def total_def by (rule assms(2))
  moreover have "datetime_add_seconds dt k = (if 0 < days \<and> days \<le> MAXORDINAL
         then (case ord2ymd days of
                 (y, m, d) \<Rightarrow>
                   Inr \<lparr>year = y, month = m, day = d, hour = rem div 3600,
                        minute = rem mod 3600 div 60, second = rem mod 60,
                        microsecond = microsecond dt\<rparr>)
         else Inl OverflowError)"
    unfolding datetime_add_seconds_def Let_def total_def days_def rem_def ..
  ultimately show ?thesis unfolding o by simp
qed

lemma datetime_add_seconds_overflow:
  assumes "to_seconds dt + k < 86400"
  shows "datetime_add_seconds dt k = Inl OverflowError"
proof -
  have "\<not> 0 < (to_seconds dt + k) div 86400" using assms
    by (simp add: pos_imp_zdiv_pos_iff)
  then show ?thesis unfolding datetime_add_seconds_def Let_def by (simp only: if_False simp_thms)
qed

lemma year_decompose:
  fixes y :: int
  assumes "1 \<le> y"
  shows "\<exists>a b c e. y = a * 400 + 1 + b * 100 + c * 4 + e \<and> 0 \<le> a \<and>
           0 \<le> b \<and> b \<le> 3 \<and> 0 \<le> c \<and> c \<le> 24 \<and> 0 \<le> e \<and> e \<le> 3"
proof -
  define a where "a = (y - 1) div 400"
  define r400 where "r400 = (y - 1) mod 400"
  define b where "b = r400 div 100"
  define r100 where "r100 = r400 mod 100"
  define c where "c = r100 div 4"
  define e where "e = r100 mod 4"
  have s1: "y - 1 = 400 * a + r400" "0 \<le> r400" "r400 < 400"
    unfolding a_def r400_def by simp_all
  have s2: "r400 = 100 * b + r100" "0 \<le> r100" "r100 < 100"
    unfolding b_def r100_def by simp_all
  have s3: "r100 = 4 * c + e" "0 \<le> e" "e < 4"
    unfolding c_def e_def by simp_all
  have a: "0 \<le> a" unfolding a_def using assms by (simp add: pos_imp_zdiv_nonneg_iff)
  have b: "0 \<le> b \<and> b \<le> 3" using s1 s2 by arith
  have c: "0 \<le> c \<and> c \<le> 24" using s2 s3 by arith
  have e: "0 \<le> e \<and> e \<le> 3" using s3 by arith
  have y: "y = a * 400 + 1 + b * 100 + c * 4 + e" using s1 s2 s3 by arith
  from y a b c e show ?thesis by blast
qed

lemma day_of_year_bounds:
  assumes "1 \<le> m" "m \<le> 12" "1 \<le> d" "d \<le> days_in_month y m"
  shows "1 \<le> days_before_month y m + d \<and>
         days_before_month y m + d \<le> 365 + (if is_leap y then 1 else 0)"
proof -
  from assms(1,2) consider "m = 1" | "m = 2" | "m = 3" | "m = 4" | "m = 5" | "m = 6" | "m = 7"
    | "m = 8" | "m = 9" | "m = 10" | "m = 11" | "m = 12" by atomize_elim arith
  then show ?thesis
  proof cases
    case 1
    with assms show ?thesis
      by (simp add: days_in_month_def days_before_month_def DAYS_BEFORE_MONTH_def
          DAYS_IN_MONTH_def split: if_splits)
  next
    case 2
    with assms show ?thesis
      by (simp add: days_in_month_def days_before_month_def DAYS_BEFORE_MONTH_def
          DAYS_IN_MONTH_def split: if_splits)
  next
    case 3
    with assms show ?thesis
      by (simp add: days_in_month_def days_before_month_def DAYS_BEFORE_MONTH_def
          DAYS_IN_MONTH_def split: if_splits)
  next
    case 4
    with assms show ?thesis
      by (simp add: days_in_month_def days_before_month_def DAYS_BEFORE_MONTH_def
          DAYS_IN_MONTH_def split: if_splits)
  next
    case 5
    with assms show ?thesis
      by (simp add: days_in_month_def days_before_month_def DAYS_BEFORE_MONTH_def
          DAYS_IN_MONTH_def split: if_splits)
  next
    case 6
    with assms show ?thesis
      by (simp add: days_in_month_def days_before_month_def DAYS_BEFORE_MONTH_def
          DAYS_IN_MONTH_def split: if_splits)
  next
    case 7
    with assms show ?thesis
      by (simp add: days_in_month_def days_before_month_def DAYS_BEFORE_MONTH_def
          DAYS_IN_MONTH_def split: if_splits)
  next
    case 8
    with assms show ?thesis
      by (simp add: days_in_month_def days_before_month_def DAYS_BEFORE_MONTH_def
          DAYS_IN_MONTH_def split: if_splits)
  next
    case 9
    with assms show ?thesis
      by (simp add: days_in_month_def days_before_month_def DAYS_BEFORE_MONTH_def
          DAYS_IN_MONTH_def split: if_splits)
  next
    case 10
    with assms show ?thesis
      by (simp add: days_in_month_def days_before_month_def DAYS_BEFORE_MONTH_def
          DAYS_IN_MONTH_def split: if_splits)
  next
    case 11
    with assms show ?thesis
      by (simp add: days_in_month_def days_before_month_def DAYS_BEFORE_MONTH_def
          DAYS_IN_MONTH_def split: if_splits)
  next
    case 12
    with assms show ?thesis
      by (simp add: days_in_month_def days_before_month_def DAYS_BEFORE_MONTH_def
          DAYS_IN_MONTH_def split: if_splits)
  qed
qed

lemma ymd2ord_bounds:
  assumes "check_date_fields y m d"
  shows "1 \<le> ymd2ord y m d \<and> ymd2ord y m d \<le> MAXORDINAL"
proof -
  from assms have y: "1 \<le> y" "y \<le> 9999" and md: "1 \<le> m" "m \<le> 12" "1 \<le> d" "d \<le> days_in_month y m"
    by (simp_all add: check_date_fields_def)
  from year_decompose [OF y(1)] obtain a b c e where
    dec: "y = a * 400 + 1 + b * 100 + c * 4 + e" and
    bd: "0 \<le> a" "0 \<le> b" "b \<le> 3" "0 \<le> c" "c \<le> 24" "0 \<le> e" "e \<le> 3" by blast
  have dby: "days_before_year y = a * 146097 + b * 36524 + c * 1461 + e * 365"
    unfolding dec using bd by (intro days_before_year_split) simp_all
  have lp: "is_leap y = (e = 3 \<and> (c \<noteq> 24 \<or> b = 3))"
    unfolding dec using bd by (intro is_leap_split) simp_all
  from day_of_year_bounds [OF md]
  have doy: "1 \<le> days_before_month y m + d"
    "days_before_month y m + d \<le> 365 + (if e = 3 \<and> (c \<noteq> 24 \<or> b = 3) then 1 else 0)"
    unfolding lp by simp_all
  have lo: "1 \<le> ymd2ord y m d" unfolding ymd2ord_def dby using bd doy(1) by simp
  have a24: "a \<le> 24" using dec y(2) bd by arith
  have hi: "ymd2ord y m d \<le> MAXORDINAL"
  proof (cases "a \<le> 23")
    case True
    with bd doy(2) show ?thesis unfolding ymd2ord_def dby MAXORDINAL_def
      by (simp split: if_splits)
  next
    case False
    with a24 have a: "a = 24" by simp
    with dec y(2) have "b * 100 + c * 4 + e \<le> 398" by simp
    with bd doy(2) show ?thesis unfolding ymd2ord_def dby MAXORDINAL_def a
      by (simp split: if_splits)
  qed
  from lo hi show ?thesis ..
qed

section \<open>The date normalizer\<close>

lemma datetime_new_valid: "datetime_new y m d h mi s us = Inr dt \<Longrightarrow> valid_datetime dt"
  by (auto simp: datetime_new_def valid_datetime_def split: if_splits)

lemma datetime_new_fields:
  "datetime_new y m d h mi s us = Inr dt \<Longrightarrow>
     dt = \<lparr>year = y, month = m, day = d, hour = h, minute = mi, second = s, microsecond = us\<rparr>"
  by (auto simp: datetime_new_def split: if_splits)

lemma if_Inr: "(if c then x else Inl e) = Inr v \<Longrightarrow> x = Inr v"
  by (cases c) simp_all

lemma fromisoformat_valid:
  assumes "fromisoformat s = Inr dt"
  shows "valid_datetime dt \<and> microsecond dt = 0"
proof -
  from assms [unfolded fromisoformat_def]
  have n: "datetime_new (py_int (take 4 s)) (py_int (take 2 (drop 5 s)))
             (py_int (take 2 (drop 8 s))) (py_int (take 2 (drop 11 s)))
             (py_int (take 2 (drop 14 s))) (py_int (take 2 (drop 17 s))) 0 = Inr dt"
    by (rule if_Inr)
  from datetime_new_valid [OF n] datetime_new_fields [OF n] show ?thesis by simp
qed

lemma to_seconds_bounds:
  assumes "valid_datetime dt"
  shows "86400 \<le> to_seconds dt \<and> to_seconds dt < (MAXORDINAL + 1) * 86400"
proof -
  from assms have d: "check_date_fields (year dt) (month dt) (day dt)"
    and t: "0 \<le> hour dt" "hour dt \<le> 23" "0 \<le> minute dt" "minute dt \<le> 59"
      "0 \<le> second dt" "second dt \<le> 59"
    by (simp_all add: valid_datetime_def check_time_fields_def)
  define od where "od = ymd2ord (year dt) (month dt) (day dt)"
  from ymd2ord_bounds [OF d] have "1 \<le> od" "od \<le> 3652059"
    unfolding od_def MAXORDINAL_def by simp_all
  then have b: "86400 \<le> od * 86400" "od * 86400 \<le> 3652059 * 86400" by simp_all
  have ts: "to_seconds dt = od * 86400 + hour dt * 3600 + minute dt * 60 + second dt"
    unfolding to_seconds_def od_def ..
  from b t have "86400 \<le> to_seconds dt" unfolding ts by linarith
  moreover from b t have "to_seconds dt < (MAXORDINAL + 1) * 86400"
    unfolding ts MAXORDINAL_def by simp
  ultimately show ?thesis ..
qed

lemma div_le_of_less:
  fixes x q :: int
  assumes "x < (q + 1) * 86400"
  shows "x div 86400 \<le> q"
proof -
  have "x div 86400 < q + 1" using assms by (simp add: div_less_iff_less_mult)
  then show ?thesis by linarith
qed

lemma astimezone_utc_returns:
  assumes "valid_datetime dt" "86400 + off \<le> to_seconds dt" "0 \<le> off"
  shows "\<exists>u. astimezone_utc dt off = Inr u \<and> to_seconds u = to_seconds dt - off \<and>
           microsecond u = microsecond dt"
proof -
  from to_seconds_bounds [OF assms(1)] assms(3)
  have "to_seconds dt + (- off) < (MAXORDINAL + 1) * 86400" by linarith
  then have "(to_seconds dt + (- off)) div 86400 \<le> MAXORDINAL" by (rule div_le_of_less)
  moreover have "86400 \<le> to_seconds dt + (- off)" using assms(2) by linarith
  ultimately obtain u where u: "datetime_add_seconds dt (- off) = Inr u"
    using datetime_add_seconds_returns by blast
  from datetime_add_seconds_Inr [OF u]
  have "to_seconds u = to_seconds dt - off \<and> microsecond u = microsecond dt" by linarith
  with u show ?thesis unfolding astimezone_utc_def by blast
qed

text \<open>
  Claim C3, as amended. For a well-formed timestamp at or after 0001-01-01 08:00:00,
  \<open>convert_to_utc\<close> returns a UTC value exactly eight hours earlier on the time line than
  the wall-clock value it read (the offset attached is UTC+8); for a well-formed timestamp
  in the first eight hours of year 1 it raises \<open>OverflowError\<close>, the UTC value being
  before the first representable day. For the range
  \<open>2024-01-01 00:00:00 - 2024-01-02 00:00:00\<close> the two halves become 2023-12-31 16:00:00
  and 2024-01-01 16:00:00 UTC, exactly 24 hours apart.
\<close>

theorem convert_to_utc_eight_hours_earlier:
  "(fromisoformat s = Inr dt \<and> 86400 + 8 * 3600 \<le> to_seconds dt \<longrightarrow>
      (\<exists>u. convert_to_utc s = Inr u \<and> to_seconds u = to_seconds dt - 8 * 3600 \<and>
           microsecond u = microsecond dt))
   \<and> (fromisoformat s = Inr dt \<and> to_seconds dt < 86400 + 8 * 3600 \<longrightarrow>
        convert_to_utc s = Inl OverflowError)
   \<and> py_split ''2024-01-01 00:00:00 - 2024-01-02 00:00:00'' '' - '' =
       [''2024-01-01 00:00:00'', ''2024-01-02 00:00:00'']
   \<and> format_date ''2024-01-01 00:00:00'' = Inr ''2024-01-01T00:00:00''
   \<and> format_date ''2024-01-02 00:00:00'' = Inr ''2024-01-02T00:00:00''
   \<and> convert_to_utc ''2024-01-01T00:00:00'' =
       Inr \<lparr>year = 2023, month = 12, day = 31, hour = 16, minute = 0, second = 0,
            microsecond = 0\<rparr>
   \<and> convert_to_utc ''2024-01-02T00:00:00'' =
       Inr \<lparr>year = 2024, month = 1, day = 1, hour = 16, minute = 0, second = 0,
            microsecond = 0\<rparr>
   \<and> to_seconds \<lparr>year = 2024, month = 1, day = 1, hour = 16, minute = 0, second = 0,
            microsecond = 0\<rparr> -
       to_seconds \<lparr>year = 2023, month = 12, day = 31, hour = 16, minute = 0, second = 0,
            microsecond = 0\<rparr> = 24 * 3600"
proof (intro conjI impI)
  assume h: "fromisoformat s = Inr dt \<and> 86400 + 8 * 3600 \<le> to_seconds dt"
  then have v: "valid_datetime dt" using fromisoformat_valid by blast
  from h have "86400 + 8 * 3600 \<le> to_seconds dt" ..
  from astimezone_utc_returns [OF v this] h
  show "\<exists>u. convert_to_utc s = Inr u \<and> to_seconds u = to_seconds dt - 8 * 3600 \<and>
           microsecond u = microsecond dt"
    unfolding convert_to_utc_def by simp
next
  assume h: "fromisoformat s = Inr dt \<and> to_seconds dt < 86400 + 8 * 3600"
  then have "to_seconds dt + (- (8 * 3600)) < 86400" by linarith
  from datetime_add_seconds_overflow [OF this] h
  show "convert_to_utc s = Inl OverflowError"
    unfolding convert_to_utc_def astimezone_utc_def by simp
qed code_simp+

theorem convert_to_utc_eight_hours_earlier_witness:
  "fromisoformat ''2024-03-01T07:30:15'' =
     Inr \<lparr>year = 2024, month = 3, day = 1, hour = 7, minute = 30, second = 15,
          microsecond = 0\<rparr>
   \<and> 86400 + 8 * 3600 \<le> to_seconds \<lparr>year = 2024, month = 3, day = 1, hour = 7,
          minute = 30, second = 15, microsecond = 0\<rparr>
   \<and> (\<exists>u. convert_to_utc ''2024-03-01T07:30:15'' = Inr u \<and>
          to_seconds u = to_seconds \<lparr>year = 2024, month = 3, day = 1, hour = 7,
          minute = 30, second = 15, microsecond = 0\<rparr> - 8 * 3600 \<and>
          microsecond u = 0)
   \<and> fromisoformat ''0001-01-01T07:59:59'' =
     Inr \<lparr>year = 1, month = 1, day = 1, hour = 7, minute = 59, second = 59,
          microsecond = 0\<rparr>
   \<and> to_seconds \<lparr>year = 1, month = 1, day = 1, hour = 7, minute = 59, second = 59,
          microsecond = 0\<rparr> < 86400 + 8 * 3600
   \<and> convert_to_utc ''0001-01-01T07:59:59'' = Inl OverflowError"
proof -
  let ?a = "\<lparr>year = 2024, month = 3, day = 1, hour = 7, minute = 30, second = 15,
          microsecond = 0\<rparr>"
  let ?b = "\<lparr>year = 1, month = 1, day = 1, hour = 7, minute = 59, second = 59,
          microsecond = 0\<rparr>"
  have a1: "fromisoformat ''2024-03-01T07:30:15'' = Inr ?a" by code_simp
  have a2: "86400 + 8 * 3600 \<le> to_seconds ?a" by code_simp
  have b1: "fromisoformat ''0001-01-01T07:59:59'' = Inr ?b" by code_simp
  have b2: "to_seconds ?b < 86400 + 8 * 3600" by code_simp
  from convert_to_utc_eight_hours_earlier [of "''2024-03-01T07:30:15''" ?a] a1 a2
  have a3: "\<exists>u. convert_to_utc ''2024-03-01T07:30:15'' = Inr u \<and>
          to_seconds u = to_seconds ?a - 8 * 3600 \<and> microsecond u = 0"
    by simp
  from convert_to_utc_eight_hours_earlier [of "''0001-01-01T07:59:59''" ?b] b1 b2
  have b3: "convert_to_utc ''0001-01-01T07:59:59'' = Inl OverflowError" by blast
  from a1 a2 a3 b1 b2 b3 show ?thesis by blast
qed

theorem convert_to_utc_first_hours_counterexample:
  "\<not> (\<forall>s dt. fromisoformat s = Inr dt \<longrightarrow>
        (\<exists>u. convert_to_utc s = Inr u \<and> to_seconds u = to_seconds dt - 8 * 3600))"
proof
  assume "\<forall>s dt. fromisoformat s = Inr dt \<longrightarrow>
        (\<exists>u. convert_to_utc s = Inr u \<and> to_seconds u = to_seconds dt - 8 * 3600)"
  moreover have "fromisoformat ''0001-01-01T00:00:00'' =
     Inr \<lparr>year = 1, month = 1, day = 1, hour = 0, minute = 0, second = 0,
          microsecond = 0\<rparr>" by code_simp
  ultimately have "\<exists>u. convert_to_utc ''0001-01-01T00:00:00'' = Inr u" by blast
  moreover have "convert_to_utc ''0001-01-01T00:00:00'' = Inl OverflowError" by code_simp
  ultimately show False by simp
qed

section \<open>The selector\<close>

lemma select_code_windows:
  "those (map activation_window items) = Some ws \<Longrightarrow>
     select_code now items = Inr (spec_selector now ws)"
proof (induction items arbitrary: ws)
  case Nil
  then show ?case by (simp add: spec_selector_def)
next
  case (Cons item items)
  from Cons.prems obtain w ws' where w: "activation_window item = Some w"
    and ws': "those (map activation_window items) = Some ws'" and ws: "ws = w # ws'"
    by (auto split: option.splits)
  obtain st en c where wt: "w = (st, en, c)" by (cases w) auto
  from w wt obtain sd ed where f: "dict_getitem item ''start_date'' = Inr sd"
    "dict_getitem item ''end_date'' = Inr ed" "dict_getitem item ''activation_code'' = Inr c"
    "convert_to_utc sd = Inr st" "convert_to_utc ed = Inr en"
    by (auto simp: activation_window_def split: sum.splits)
  show ?case
    using Cons.IH [OF ws'] f
    by (simp add: ws wt spec_selector_def window_contains_def)
qed

lemma selector_windows:
  "those (map activation_window items) = Some ws \<Longrightarrow>
     selector now items = Inr (truthy_code (spec_selector now ws))"
  by (simp add: selector_def select_code_windows truthy_code_def split: option.splits)

lemma truthy_spec_selector:
  "list_all (\<lambda>w. snd (snd w) \<noteq> []) ws \<Longrightarrow>
     truthy_code (spec_selector now ws) = spec_selector now ws"
  by (induction ws) (auto simp: spec_selector_def truthy_code_def split: option.splits)

lemma spec_selector_none:
  "list_all (\<lambda>w. \<not> window_contains now w) ws \<Longrightarrow> spec_selector now ws = None"
  by (induction ws) (auto simp: spec_selector_def)

section \<open>The run\<close>

lemma build_cached_data_keys_json:
  "build_cached_data (e\<lparr>keys_json := k\<rparr>) = build_cached_data e"
  by (auto simp: build_cached_data_def split: http_result.split)

lemma write_keys_to_file_keys_json:
  "write_keys_to_file (e\<lparr>keys_json := k\<rparr>) t = write_keys_to_file e t"
  by (simp add: write_keys_to_file_def)

lemma fetch_branch_keys_json: "fetch_branch (e\<lparr>keys_json := k\<rparr>) = fetch_branch e"
  by (simp add: fetch_branch_def build_cached_data_keys_json write_keys_to_file_keys_json
      split: prod.split sum.split option.split)

lemma fetch_cached_data_branch: "fetch_cached_data e = fetch_branch e"
  by (simp add: fetch_cached_data_def)

lemma insert_key_automatically_keys_json:
  "insert_key_automatically (e\<lparr>keys_json := k\<rparr>) c = insert_key_automatically e c"
  by (simp add: insert_key_automatically_def)

lemma main_keys_json: "main (e\<lparr>keys_json := k\<rparr>) = main e"
  by (simp add: main_def fetch_cached_data_branch fetch_branch_keys_json
      insert_key_automatically_keys_json split: prod.split sum.split option.split)

lemma build_cached_data_failed:
  "http e = RequestFailed \<or> (\<exists>sc text. http e = Response sc text \<and> 400 \<le> sc \<and> sc < 600) \<Longrightarrow>
     build_cached_data e =
       ([LogException ''Failed to connect to the server'', Alert ConnectFailed], Inr None)"
  by (auto simp: build_cached_data_def)

section \<open>Reading back what was written\<close>

lemma hexval_hexdigit: "k < 16 \<Longrightarrow> hexval (hexdigit k) = Some k"
proof -
  assume "k < 16"
  then consider "k = 0" | "k = 1" | "k = 2" | "k = 3" | "k = 4" | "k = 5" | "k = 6" | "k = 7"
    | "k = 8" | "k = 9" | "k = 10" | "k = 11" | "k = 12" | "k = 13" | "k = 14" | "k = 15"
    by atomize_elim arith
  then show ?thesis
    by cases (simp_all add: hexval_def hexdigit_def)
qed

lemma hex4_small:
  assumes "n < 256"
  shows "hex4 n = [hexdigit 0, hexdigit 0, hexdigit (n div 16), hexdigit (n mod 16)]"
proof -
  have "n div 4096 mod 16 = 0" "n div 256 mod 16 = 0" "n div 16 mod 16 = n div 16"
    using assms by simp_all
  then show ?thesis unfolding hex4_def by (simp only:)
qed

lemma decode_four:
  assumes "hexval a = Some x3" "hexval b = Some x2" "hexval c = Some x1" "hexval d = Some x0"
    and "((x3 * 16 + x2) * 16 + x1) * 16 + x0 < 256"
  shows "decode_uXXXX (a # b # c # d # rest) =
           Some (char_of (((x3 * 16 + x2) * 16 + x1) * 16 + x0))"
  unfolding decode_uXXXX_def using assms by (simp add: Let_def)

lemma decode_hex4:
  assumes "n < 256"
  shows "decode_uXXXX (hex4 n @ rest) = Some (char_of n)"
proof -
  have a: "n div 16 < 16" using assms by simp
  have b: "n mod 16 < 16" by simp
  have v: "((0 * 16 + 0) * 16 + n div 16) * 16 + n mod 16 = n" by simp
  have "decode_uXXXX (hexdigit 0 # hexdigit 0 # hexdigit (n div 16) # hexdigit (n mod 16) # rest) =
      Some (char_of (((0 * 16 + 0) * 16 + n div 16) * 16 + n mod 16))"
    by (rule decode_four) (simp_all add: hexval_hexdigit a b assms v del: mult_eq_0_iff)
  then show ?thesis unfolding hex4_small [OF assms] v by simp
qed

lemma scanstring_escape_char:
  "scanstring chunks (json_escape_char c @ rest) = scanstring (c # chunks) rest"
proof -
  have lt: "(of_char c :: nat) < 256" by simp
  show ?thesis
  proof (cases "json_escape_char c = BACKSLASH # CHR ''u'' # hex4 (of_char c)")
    case True
    then have "scanstring chunks (json_escape_char c @ rest) =
        scanstring (char_of (of_char c :: nat) # chunks) (drop 4 (hex4 (of_char c) @ rest))"
      by (simp add: decode_hex4 [OF lt])
    then show ?thesis by (simp add: hex4_def)
  next
    case False
    then show ?thesis
      unfolding json_escape_char_def
      by (simp add: BACKSLASH_table_def split: if_splits)
  qed
qed

lemma scanstring_escaped:
  "scanstring chunks (concat (map json_escape_char s) @ DQUOTE # rest) = Inr (rev chunks @ s, rest)"
  by (induction s arbitrary: chunks) (simp_all add: scanstring_escape_char)

lemma scanstring_encoded:
  "scanstring [] (tl (encode_basestring_ascii s) @ rest) = Inr (s, rest)"
  using scanstring_escaped [of "[]" s rest] by (simp add: encode_basestring_ascii_def)

lemma encode_Cons: "encode_basestring_ascii s = DQUOTE # tl (encode_basestring_ascii s)"
  by (simp add: encode_basestring_ascii_def)

lemma dump_item_Cons:
  "dump_item (k, v) =
     DQUOTE # tl (encode_basestring_ascii k) @ '': '' @ DQUOTE # tl (encode_basestring_ascii v)"
  unfolding dump_item_def by (simp add: encode_basestring_ascii_def)

lemma join_items_Cons:
  "join members_sep (dump_item (k, v) # map dump_item d) =
     DQUOTE # tl (encode_basestring_ascii k) @ '': '' @ DQUOTE # tl (encode_basestring_ascii v) @
     (if d = [] then [] else members_sep @ join members_sep (map dump_item d))"
  by (cases d) (simp_all add: dump_item_Cons)

lemma skip_ws_simps:
  "skip_ws (CHR '' '' # s) = skip_ws s"
  "skip_ws (CHR 0x0A # s) = skip_ws s"
  "skip_ws (DQUOTE # s) = DQUOTE # s"
  "skip_ws (CHR '','' # s) = CHR '','' # s"
  "skip_ws (CHR '':'' # s) = CHR '':'' # s"
  "skip_ws (CHR ''{'' # s) = CHR ''{'' # s"
  "skip_ws (CHR ''}'' # s) = CHR ''}'' # s"
  "skip_ws (CHR ''['' # s) = CHR ''['' # s"
  "skip_ws (CHR '']'' # s) = CHR '']'' # s"
  "skip_ws [] = []"
  by (simp_all add: skip_ws_def json_ws_def)

lemma parse_members_step:
  "parse_members (Suc m)
     (tl (encode_basestring_ascii k) @ CHR '':'' # CHR '' '' # DQUOTE #
      tl (encode_basestring_ascii v) @ tail) pairs =
   (case skip_ws tail of
      [] \<Rightarrow> Inl ValueError
    | c7 # r8 \<Rightarrow>
        if c7 = CHR ''}'' then Inr (pairs @ [(k, v)], r8)
        else if c7 \<noteq> CHR '','' then Inl ValueError
        else
          (case skip_ws r8 of
             [] \<Rightarrow> Inl ValueError
           | c9 # r10 \<Rightarrow>
               if c9 \<noteq> DQUOTE then Inl ValueError
               else parse_members m r10 (pairs @ [(k, v)])))"
  by (simp add: scanstring_encoded skip_ws_simps)

lemma join_items_hd:
  "\<exists>t. join members_sep (dump_item (k, v) # xs) = DQUOTE # t"
  by (cases xs) (simp_all add: dump_item_Cons)

lemma parse_members_written:
  "length d < n \<Longrightarrow>
     parse_members n
       (tl (join members_sep (dump_item (k, v) # map dump_item d)) @
        CHR 0x0A # CHR '' '' # CHR '' '' # CHR ''}'' # rest) pairs =
     Inr (pairs @ (k, v) # d, rest)"
proof (induction d arbitrary: n k v pairs)
  case Nil
  then obtain m where n: "n = Suc m" by (cases n) auto
  have "parse_members (Suc m)
       (tl (encode_basestring_ascii k) @ CHR '':'' # CHR '' '' # DQUOTE #
        tl (encode_basestring_ascii v) @ CHR 0x0A # CHR '' '' # CHR '' '' # CHR ''}'' # rest)
       pairs = Inr (pairs @ [(k, v)], rest)"
    unfolding parse_members_step by (simp add: skip_ws_simps)
  then show ?case unfolding n by (simp add: dump_item_Cons del: parse_members.simps)
next
  case (Cons kv d)
  then obtain m where n: "n = Suc m" and m: "length d < m" by (cases n) auto
  obtain k' v' where kv: "kv = (k', v')" by (cases kv) auto
  obtain t where t: "join members_sep (dump_item (k', v') # map dump_item d) = DQUOTE # t"
    using join_items_hd by blast
  let ?end = "CHR 0x0A # CHR '' '' # CHR '' '' # CHR ''}'' # rest"
  have "parse_members (Suc m)
       (tl (encode_basestring_ascii k) @ CHR '':'' # CHR '' '' # DQUOTE #
        tl (encode_basestring_ascii v) @
        (CHR '','' # CHR 0x0A # CHR '' '' # CHR '' '' # CHR '' '' # CHR '' '' #
         DQUOTE # t @ ?end)) pairs =
      parse_members m (t @ ?end) (pairs @ [(k, v)])"
    unfolding parse_members_step by (simp add: skip_ws_simps)
  also have "\<dots> = Inr ((pairs @ [(k, v)]) @ (k', v') # d, rest)"
    using Cons.IH [OF m, of k' v' "pairs @ [(k, v)]"] unfolding t by simp
  finally have "parse_members (Suc m)
       (tl (encode_basestring_ascii k) @ CHR '':'' # CHR '' '' # DQUOTE #
        tl (encode_basestring_ascii v) @
        (CHR '','' # CHR 0x0A # CHR '' '' # CHR '' '' # CHR '' '' # CHR '' '' #
         DQUOTE # t @ ?end)) pairs = Inr (pairs @ (k, v) # (k', v') # d, rest)"
    by simp
  moreover have "tl (join members_sep (dump_item (k, v) # map dump_item (kv # d))) @ ?end =
       tl (encode_basestring_ascii k) @ CHR '':'' # CHR '' '' # DQUOTE #
        tl (encode_basestring_ascii v) @
        (CHR '','' # CHR 0x0A # CHR '' '' # CHR '' '' # CHR '' '' # CHR '' '' #
         DQUOTE # t @ ?end)"
    by (simp only: kv list.map join.simps t)
      (simp add: dump_item_Cons members_sep_def newline_def)
  ultimately show ?case unfolding n kv by (simp del: parse_members.simps)
qed

lemma dict_setitem_append: "k \<notin> fst ` set d \<Longrightarrow> dict_setitem d k v = d @ [(k, v)]"
  by (induction d) auto

lemma foldl_dict_setitem:
  "distinct (map fst (acc @ pairs)) \<Longrightarrow>
     foldl (\<lambda>d (k, v). dict_setitem d k v) acc pairs = acc @ pairs"
proof (induction pairs arbitrary: acc)
  case Nil
  then show ?case by simp
next
  case (Cons kv pairs)
  obtain k v where kv: "kv = (k, v)" by (cases kv) auto
  from Cons.prems have "k \<notin> fst ` set acc" unfolding kv by auto
  then have s: "dict_setitem acc k v = acc @ [(k, v)]" by (rule dict_setitem_append)
  from Cons.prems have "distinct (map fst ((acc @ [(k, v)]) @ pairs))" unfolding kv by simp
  from Cons.IH [OF this] show ?case unfolding kv by (simp add: s)
qed

lemma dict_of_pairs_distinct: "distinct (map fst pairs) \<Longrightarrow> dict_of_pairs pairs = pairs"
  unfolding dict_of_pairs_def using foldl_dict_setitem [of "[]" pairs] by simp

lemma dump_dict_Cons: "dump_dict d = CHR ''{'' # tl (dump_dict d)"
  by (simp add: dump_dict_def)

lemma JSONObject_written:
  assumes "distinct (map fst d)" "length d < fuel"
  shows "JSONObject fuel (tl (dump_dict d) @ rest) = Inr (d, rest)"
proof (cases d)
  case Nil
  then show ?thesis by (simp add: JSONObject_def dump_dict_def skip_ws_simps)
next
  case (Cons kv d')
  obtain k v where kv: "kv = (k, v)" by (cases kv) auto
  obtain t where t: "join members_sep (dump_item (k, v) # map dump_item d') = DQUOTE # t"
    using join_items_hd by blast
  from assms(2) Cons have "length d' < fuel" by simp
  from parse_members_written [OF this, of k v rest "[]"]
  have p: "parse_members fuel (t @ CHR 0x0A # CHR '' '' # CHR '' '' # CHR ''}'' # rest) [] =
      Inr ((k, v) # d', rest)"
    unfolding t by simp
  have "tl (dump_dict d) @ rest =
      CHR 0x0A # CHR '' '' # CHR '' '' # CHR '' '' # CHR '' '' # DQUOTE #
      t @ CHR 0x0A # CHR '' '' # CHR '' '' # CHR ''}'' # rest"
    unfolding Cons kv dump_dict_def
    by (simp only: list.map t) (simp add: newline_def)
  then show ?thesis
    using assms(1) unfolding Cons kv
    by (simp add: JSONObject_def skip_ws_simps p dict_of_pairs_distinct
        del: parse_members.simps)
qed

lemma length_join_items: "length d \<le> length (join members_sep (map dump_item d))"
proof (induction d rule: induct_list012)
  case 1
  then show ?case by simp
next
  case (2 x)
  then show ?case by (cases x) (simp add: dump_item_Cons)
next
  case (3 x y zs)
  then show ?case by (cases x) (simp add: dump_item_Cons)
qed

lemma length_dump_dict: "length d < length (tl (dump_dict d))"
  using length_join_items [of d] by (simp add: dump_dict_def)

lemma dump_dict_hd: "\<exists>t. dump_dict d = CHR ''{'' # t"
  by (simp add: dump_dict_def)

lemma join_dicts_hd: "\<exists>t. join elements_sep (dump_dict d # xs) = CHR ''{'' # t"
proof -
  obtain u where u: "dump_dict d = CHR ''{'' # u" using dump_dict_hd by blast
  show ?thesis by (cases xs) (simp_all add: u)
qed

lemma parse_elements_step:
  assumes "distinct (map fst d)" "dump_dict d = CHR ''{'' # u"
  shows "parse_elements (Suc m) (CHR ''{'' # u @ tail) vals =
     (case skip_ws tail of
        [] \<Rightarrow> Inl ValueError
      | c2 # r3 \<Rightarrow>
          if c2 = CHR '']'' then Inr (vals @ [d], r3)
          else if c2 \<noteq> CHR '','' then Inl ValueError
          else parse_elements m (skip_ws r3) (vals @ [d]))"
proof -
  have u: "tl (dump_dict d) = u" unfolding assms(2) by simp
  have "length d < length (u @ tail)" using length_dump_dict [of d] unfolding u by simp
  from JSONObject_written [OF assms(1) this, of tail]
  have "JSONObject (length (u @ tail)) (u @ tail) = Inr (d, tail)" unfolding u .
  then show ?thesis by simp
qed

lemma parse_elements_written:
  "list_all (\<lambda>d. distinct (map fst d)) (d # ds) \<Longrightarrow> length ds < n \<Longrightarrow>
     parse_elements n
       (join elements_sep (dump_dict d # map dump_dict ds) @ CHR 0x0A # CHR '']'' # rest) vals =
     Inr (vals @ d # ds, rest)"
proof (induction ds arbitrary: n d vals)
  case Nil
  then obtain m where n: "n = Suc m" by (cases n) auto
  from Nil.prems have d: "distinct (map fst d)" by simp
  obtain u where u: "dump_dict d = CHR ''{'' # u" using dump_dict_hd by blast
  have "parse_elements (Suc m) (CHR ''{'' # u @ CHR 0x0A # CHR '']'' # rest) vals =
      Inr (vals @ [d], rest)"
    unfolding parse_elements_step [OF d u] by (simp add: skip_ws_simps)
  then show ?case unfolding n by (simp add: u del: parse_elements.simps)
next
  case (Cons d' ds)
  then obtain m where n: "n = Suc m" and m: "length ds < m" by (cases n) auto
  from Cons.prems have d: "distinct (map fst d)"
    and rest_ok: "list_all (\<lambda>d. distinct (map fst d)) (d' # ds)" by simp_all
  obtain u where u: "dump_dict d = CHR ''{'' # u" using dump_dict_hd by blast
  let ?end = "CHR 0x0A # CHR '']'' # rest"
  obtain t where t: "join elements_sep (dump_dict d' # map dump_dict ds) = CHR ''{'' # t"
    using join_dicts_hd by blast
  have "parse_elements (Suc m)
      (CHR ''{'' # u @ (CHR '','' # CHR 0x0A # CHR '' '' # CHR '' '' # CHR ''{'' # t @ ?end))
      vals = parse_elements m (CHR ''{'' # t @ ?end) (vals @ [d])"
    unfolding parse_elements_step [OF d u] by (simp add: skip_ws_simps)
  also have "\<dots> = Inr ((vals @ [d]) @ d' # ds, rest)"
    using Cons.IH [OF rest_ok m, of "vals @ [d]"] unfolding t by simp
  finally have "parse_elements (Suc m)
      (CHR ''{'' # u @ (CHR '','' # CHR 0x0A # CHR '' '' # CHR '' '' # CHR ''{'' # t @ ?end))
      vals = Inr (vals @ d # d' # ds, rest)" by simp
  moreover have "join elements_sep (dump_dict d # map dump_dict (d' # ds)) @ ?end =
      CHR ''{'' # u @ (CHR '','' # CHR 0x0A # CHR '' '' # CHR '' '' # CHR ''{'' # t @ ?end)"
    by (simp only: list.map join.simps t) (simp add: u elements_sep_def newline_def)
  ultimately show ?case unfolding n by (simp del: parse_elements.simps)
qed

lemma length_join_dicts: "length ds \<le> length (join elements_sep (map dump_dict ds))"
proof (induction ds rule: induct_list012)
  case 1
  then show ?case by simp
next
  case (2 x)
  obtain u where u: "dump_dict x = CHR ''{'' # u" using dump_dict_hd by blast
  show ?case by (simp add: u)
next
  case (3 x y zs)
  obtain u where u: "dump_dict x = CHR ''{'' # u" using dump_dict_hd by blast
  from 3(2) show ?case by (simp add: u)
qed

lemma json_loads_dumps:
  assumes ok: "list_all (\<lambda>d. distinct (map fst d)) ds"
  shows "json_loads (json_dumps ds) = Inr ds"
proof (cases ds)
  case Nil
  then show ?thesis
    by (simp add: json_loads_def json_dumps_def JSONArray_def skip_ws_simps)
next
  case (Cons d ds')
  obtain t where t: "join elements_sep (dump_dict d # map dump_dict ds') = CHR ''{'' # t"
    using join_dicts_hd by blast
  have "length (d # ds') \<le> length (CHR ''{'' # t)"
    using length_join_dicts [of "d # ds'"] unfolding list.map t .
  then have "length ds' < Suc (Suc (Suc (length t)))" by simp
  from parse_elements_written [OF ok [unfolded Cons] this, of "[]" "[]"]
  have p: "parse_elements (Suc (Suc (Suc (length t)))) (CHR ''{'' # t @ [CHR 0x0A, CHR '']'']) [] =
      Inr (d # ds', [])"
    unfolding t by simp
  have "json_dumps ds = CHR ''['' # CHR 0x0A # CHR '' '' # CHR '' '' # CHR ''{'' # t @
      [CHR 0x0A, CHR '']'']"
    unfolding Cons json_dumps_def by (simp only: list.map t) (simp add: newline_def)
  then show ?thesis
    unfolding Cons
    by (simp add: json_loads_def JSONArray_def skip_ws_simps p del: parse_elements.simps)
qed

lemma create_json_object_loop_Inr:
  "create_json_object_loop parsed acc = Inr fd \<longleftrightarrow>
     (\<exists>ds. those (map key_entry parsed) = Some ds \<and> fd = acc @ ds)"
proof (induction parsed arbitrary: acc)
  case Nil
  then show ?case by auto
next
  case (Cons item parsed)
  show ?case
  proof (cases "key_entry item")
    case None
    then have "\<exists>e. create_json_object_loop (item # parsed) acc = Inl e"
      by (auto simp: key_entry_def split: list.splits sum.splits)
    with None show ?thesis by auto
  next
    case (Some d)
    then have "create_json_object_loop (item # parsed) acc =
        create_json_object_loop parsed (acc @ [d])"
      by (auto simp: key_entry_def split: list.splits sum.splits)
    with Some Cons.IH [of "acc @ [d]"] show ?thesis
      by (auto split: option.splits)
  qed
qed

lemma create_json_object_loop_error:
  "create_json_object_loop parsed acc = Inl e \<Longrightarrow> e = ValueError"
proof (induction parsed arbitrary: acc)
  case Nil
  then show ?case by simp
next
  case (Cons item parsed)
  have f: "\<And>s e. format_date s = Inl e \<Longrightarrow> e = ValueError"
    by (auto simp: format_date_def strptime_def datetime_new_def
        split: sum.splits list.splits prod.splits if_splits)
  from Cons show ?case
    by (auto split: list.splits sum.splits dest: f)
qed

lemma key_entry_keys:
  "key_entry item = Some d \<Longrightarrow>
     map fst d = [''start_date'', ''end_date'', ''activation_code''] \<and> distinct (map fst d)"
  by (auto simp: key_entry_def split: list.splits sum.splits)

lemma those_key_entries_distinct:
  "those (map key_entry parsed) = Some ds \<Longrightarrow> list_all (\<lambda>d. distinct (map fst d)) ds"
proof (induction parsed arbitrary: ds)
  case Nil
  then show ?case by simp
next
  case (Cons item parsed)
  then show ?case by (auto split: option.splits dest: key_entry_keys)
qed

lemma json_dumps_nonempty: "json_dumps ds \<noteq> []"
  by (simp add: json_dumps_def)

lemma those_key_entries_fields:
  "those (map key_entry parsed) = Some ds \<Longrightarrow>
     length ds = length parsed \<and>
     map (\<lambda>d. dict_getitem d ''activation_code'') ds = map (\<lambda>item. Inr (activation_code item)) parsed \<and>
     map (\<lambda>d. dict_getitem d ''start_date'') ds =
       map (\<lambda>item. format_date (py_split (date_range item) '' - '' ! 0)) parsed \<and>
     map (\<lambda>d. dict_getitem d ''end_date'') ds =
       map (\<lambda>item. format_date (py_split (date_range item) '' - '' ! 1)) parsed"
proof (induction parsed arbitrary: ds)
  case Nil
  then show ?case by simp
next
  case (Cons item parsed)
  from Cons.prems obtain d ds' where d: "key_entry item = Some d"
    and ds': "those (map key_entry parsed) = Some ds'" and ds: "ds = d # ds'"
    by (auto split: option.splits)
  from d have "dict_getitem d ''activation_code'' = Inr (activation_code item) \<and>
      dict_getitem d ''start_date'' = format_date (py_split (date_range item) '' - '' ! 0) \<and>
      dict_getitem d ''end_date'' = format_date (py_split (date_range item) '' - '' ! 1)"
    by (auto simp: key_entry_def dict_getitem_def split: list.splits sum.splits)
  with Cons.IH [OF ds'] show ?case unfolding ds by simp
qed

text \<open>
  Claim C7. Whenever \<open>create_json_object\<close> returns a text for a parsed sequence, reading
  that text back with the JSON loader gives exactly the list of dictionaries that was
  written: one per entry, in the same order, whose \<open>start_date\<close> and \<open>end_date\<close> are the
  two halves of the entry's range in ISO form and whose \<open>activation_code\<close> is the entry's
  code. It returns such a text whenever every entry can be formatted.
\<close>

theorem json_round_trip:
  "(create_json_object parsed = Inr text \<longrightarrow>
      (\<exists>ds. those (map key_entry parsed) = Some ds \<and> text = json_dumps ds \<and>
            json_loads text = Inr ds))
   \<and> (those (map key_entry parsed) = Some ds \<longrightarrow>
        create_json_object parsed = Inr (json_dumps ds) \<and>
        json_loads (json_dumps ds) = Inr ds \<and> length ds = length parsed \<and>
        map (\<lambda>d. dict_getitem d ''activation_code'') ds =
          map (\<lambda>item. Inr (activation_code item)) parsed \<and>
        map (\<lambda>d. dict_getitem d ''start_date'') ds =
          map (\<lambda>item. format_date (py_split (date_range item) '' - '' ! 0)) parsed \<and>
        map (\<lambda>d. dict_getitem d ''end_date'') ds =
          map (\<lambda>item. format_date (py_split (date_range item) '' - '' ! 1)) parsed)"
proof (intro conjI impI)
  assume "create_json_object parsed = Inr text"
  then obtain fd where fd: "create_json_object_loop parsed [] = Inr fd" and t: "text = json_dumps fd"
    by (auto simp: create_json_object_def split: sum.splits)
  from fd have th: "those (map key_entry parsed) = Some fd"
    by (simp add: create_json_object_loop_Inr)
  from json_loads_dumps [OF those_key_entries_distinct [OF th]] th t
  show "\<exists>ds. those (map key_entry parsed) = Some ds \<and> text = json_dumps ds \<and>
            json_loads text = Inr ds" by blast
next
  assume th: "those (map key_entry parsed) = Some ds"
  then have "create_json_object_loop parsed [] = Inr ds"
    by (simp add: create_json_object_loop_Inr)
  then show "create_json_object parsed = Inr (json_dumps ds)"
    by (simp add: create_json_object_def)
  show "json_loads (json_dumps ds) = Inr ds"
    by (rule json_loads_dumps [OF those_key_entries_distinct [OF th]])
  from those_key_entries_fields [OF th]
  show "length ds = length parsed"
    "map (\<lambda>d. dict_getitem d ''activation_code'') ds =
          map (\<lambda>item. Inr (activation_code item)) parsed"
    "map (\<lambda>d. dict_getitem d ''start_date'') ds =
          map (\<lambda>item. format_date (py_split (date_range item) '' - '' ! 0)) parsed"
    "map (\<lambda>d. dict_getitem d ''end_date'') ds =
          map (\<lambda>item. format_date (py_split (date_range item) '' - '' ! 1)) parsed"
    by simp_all
qed

theorem json_round_trip_witness:
  "those (map key_entry
     [\<lparr>date_range = ''2024-01-01 00:00:00 - 2024-01-02 00:00:00'', activation_code = ''ABCDEF''\<rparr>,
      \<lparr>date_range = ''2024-1-2 0:0:0 - 2024-01-03  00:00:00'', activation_code = ''GHI''\<rparr>]) =
   Some [[(''start_date'', ''2024-01-01T00:00:00''), (''end_date'', ''2024-01-02T00:00:00''),
       (''activation_code'', ''ABCDEF'')],
      [(''start_date'', ''2024-01-02T00:00:00''), (''end_date'', ''2024-01-03T00:00:00''),
       (''activation_code'', ''GHI'')]]
   \<and> create_json_object
     [\<lparr>date_range = ''2024-01-01 00:00:00 - 2024-01-02 00:00:00'', activation_code = ''ABCDEF''\<rparr>,
      \<lparr>date_range = ''2024-1-2 0:0:0 - 2024-01-03  00:00:00'', activation_code = ''GHI''\<rparr>] =
     Inr (json_dumps
     [[(''start_date'', ''2024-01-01T00:00:00''), (''end_date'', ''2024-01-02T00:00:00''),
       (''activation_code'', ''ABCDEF'')],
      [(''start_date'', ''2024-01-02T00:00:00''), (''end_date'', ''2024-01-03T00:00:00''),
       (''activation_code'', ''GHI'')]])
   \<and> json_loads (json_dumps
     [[(''start_date'', ''2024-01-01T00:00:00''), (''end_date'', ''2024-01-02T00:00:00''),
       (''activation_code'', ''ABCDEF'')],
      [(''start_date'', ''2024-01-02T00:00:00''), (''end_date'', ''2024-01-03T00:00:00''),
       (''activation_code'', ''GHI'')]]) =
     Inr [[(''start_date'', ''2024-01-01T00:00:00''), (''end_date'', ''2024-01-02T00:00:00''),
       (''activation_code'', ''ABCDEF'')],
      [(''start_date'', ''2024-01-02T00:00:00''), (''end_date'', ''2024-01-03T00:00:00''),
       (''activation_code'', ''GHI'')]]"
proof -
  let ?P = "[\<lparr>date_range = ''2024-01-01 00:00:00 - 2024-01-02 00:00:00'', activation_code = ''ABCDEF''\<rparr>,
      \<lparr>date_range = ''2024-1-2 0:0:0 - 2024-01-03  00:00:00'', activation_code = ''GHI''\<rparr>]"
  let ?D = "[[(''start_date'', ''2024-01-01T00:00:00''), (''end_date'', ''2024-01-02T00:00:00''),
       (''activation_code'', ''ABCDEF'')],
      [(''start_date'', ''2024-01-02T00:00:00''), (''end_date'', ''2024-01-03T00:00:00''),
       (''activation_code'', ''GHI'')]]"
  have h: "those (map key_entry ?P) = Some ?D" by code_simp
  from json_round_trip [of ?P "json_dumps ?D" ?D] h
  have c: "create_json_object ?P = Inr (json_dumps ?D)" by blast
  from json_round_trip [of ?P "json_dumps ?D" ?D] c
  have "\<exists>ds. those (map key_entry ?P) = Some ds \<and> json_dumps ?D = json_dumps ds \<and>
      json_loads (json_dumps ?D) = Inr ds" by blast
  with h have "json_loads (json_dumps ?D) = Inr ?D" by auto
  with h c show ?thesis by blast
qed

section \<open>Fetching and the cache file\<close>

text \<open>
  Claim C4. When the HTTP request raises (a connection error, or \<open>raise_for_status\<close> on a
  status from 400 to 599), \<open>build_cached_data\<close> catches the exception, logs it, notifies
  the user and returns \<open>None\<close>; \<open>main\<close> then leaves \<open>cached_data\<close> at \<open>None\<close> and
  iterates over it, so the run ends with an uncaught \<open>TypeError\<close>: nothing is selected or
  delivered, but an exception does escape.
\<close>

theorem fetch_failure_raises_TypeError:
  "http e = RequestFailed \<or> (\<exists>sc text. http e = Response sc text \<and> 400 \<le> sc \<and> sc < 600) \<Longrightarrow>
     build_cached_data e =
       ([LogException ''Failed to connect to the server'', Alert ConnectFailed], Inr None) \<and>
     main e =
       ([LogException ''Failed to connect to the server'', Alert ConnectFailed],
        Raised TypeError)"
  by (simp add: main_def fetch_cached_data_branch fetch_branch_def build_cached_data_failed)

theorem fetch_failure_raises_TypeError_witness:
  "main \<lparr>http = RequestFailed, page_find = (\<lambda>_. Some ''2024-01-01 00:00:00 - 2030-01-01 00:00:00''),
       keys_json = None, keys_json_writable = True, key_txt_writable = True,
       now_utc = \<lparr>year = 2026, month = 1, day = 1, hour = 0, minute = 0, second = 0,
         microsecond = 0\<rparr>,
       automatic_mode = False, filecxx_running = False, window_list = []\<rparr> =
     ([LogException ''Failed to connect to the server'', Alert ConnectFailed],
      Raised TypeError)
   \<and> main \<lparr>http = Response 503 ''Service Unavailable'', page_find = (\<lambda>_. Some ''2024-01-01 00:00:00 - 2030-01-01 00:00:00''),
       keys_json = Some ''[]'', keys_json_writable = True, key_txt_writable = True,
       now_utc = \<lparr>year = 2026, month = 1, day = 1, hour = 0, minute = 0, second = 0,
         microsecond = 0\<rparr>,
       automatic_mode = False, filecxx_running = False, window_list = []\<rparr> =
     ([LogException ''Failed to connect to the server'', Alert ConnectFailed],
      Raised TypeError)"
  using fetch_failure_raises_TypeError [of "\<lparr>http = RequestFailed, page_find = (\<lambda>_. Some ''2024-01-01 00:00:00 - 2030-01-01 00:00:00''),
       keys_json = None, keys_json_writable = True, key_txt_writable = True,
       now_utc = \<lparr>year = 2026, month = 1, day = 1, hour = 0, minute = 0, second = 0,
         microsecond = 0\<rparr>,
       automatic_mode = False, filecxx_running = False, window_list = []\<rparr>"]
    fetch_failure_raises_TypeError [of "\<lparr>http = Response 503 ''Service Unavailable'', page_find = (\<lambda>_. Some ''2024-01-01 00:00:00 - 2030-01-01 00:00:00''),
       keys_json = Some ''[]'', keys_json_writable = True, key_txt_writable = True,
       now_utc = \<lparr>year = 2026, month = 1, day = 1, hour = 0, minute = 0, second = 0,
         microsecond = 0\<rparr>,
       automatic_mode = False, filecxx_running = False, window_list = []\<rparr>"]
  by simp

lemma fetch_branch_fresh:
  assumes "http e = Response 200 body"
    and "those (map key_entry (parse_html_content (page_find e) body)) = Some ds"
  shows "fetch_branch e = (write_keys_to_file e (json_dumps ds), Inr (Some ds))"
proof -
  let ?parsed = "parse_html_content (page_find e) body"
  from assms(2) have "create_json_object_loop ?parsed [] = Inr ds"
    by (simp add: create_json_object_loop_Inr)
  then have c: "create_json_object ?parsed = Inr (json_dumps ds)"
    by (simp add: create_json_object_def)
  have l: "json_loads (json_dumps ds) = Inr ds"
    by (rule json_loads_dumps [OF those_key_entries_distinct [OF assms(2)]])
  from assms(1) c have "build_cached_data e = ([], Inr (Some (json_dumps ds)))"
    by (simp add: build_cached_data_def)
  then show ?thesis by (simp add: fetch_branch_def l json_dumps_nonempty)
qed

text \<open>
  Claim C6. The run is the same whether or not \<open>keys.json\<close> exists and whatever it holds:
  both branches fetch the page afresh. When the fetch gives a page whose entries can all be
  formatted, \<open>keys.json\<close> is written with the JSON text of the fresh entries (when the file
  can be written) and the Selector is run on those entries as decoded from that text.
\<close>

theorem cache_file_never_read:
  "main (e\<lparr>keys_json := Some old\<rparr>) = main (e\<lparr>keys_json := None\<rparr>)
   \<and> fetch_cached_data (e\<lparr>keys_json := Some old\<rparr>) = fetch_cached_data (e\<lparr>keys_json := None\<rparr>)
   \<and> (http e = Response 200 body \<and>
        those (map key_entry (parse_html_content (page_find e) body)) = Some ds \<and>
        keys_json_writable e \<longrightarrow>
        fetch_cached_data e = ([WriteFile ''keys.json'' (json_dumps ds)], Inr (Some ds)) \<and>
        (\<exists>rest. main e = (WriteFile ''keys.json'' (json_dumps ds) # rest,
                            case selector (now_utc e) ds of
                              Inl err \<Rightarrow> Raised err
                            | Inr None \<Rightarrow> Returned
                            | Inr (Some c) \<Rightarrow>
                                if automatic_mode e \<or> key_txt_writable e then Returned
                                else Raised OSError)))"
proof (intro conjI impI)
  show "main (e\<lparr>keys_json := Some old\<rparr>) = main (e\<lparr>keys_json := None\<rparr>)"
    by (simp add: main_keys_json)
  show "fetch_cached_data (e\<lparr>keys_json := Some old\<rparr>) =
      fetch_cached_data (e\<lparr>keys_json := None\<rparr>)"
    by (simp add: fetch_cached_data_branch fetch_branch_keys_json)
next
  assume h: "http e = Response 200 body \<and>
        those (map key_entry (parse_html_content (page_find e) body)) = Some ds \<and>
        keys_json_writable e"
  then have f: "fetch_cached_data e = ([WriteFile ''keys.json'' (json_dumps ds)], Inr (Some ds))"
    using fetch_branch_fresh [of e body ds]
    by (simp add: fetch_cached_data_branch write_keys_to_file_def)
  then show "fetch_cached_data e = ([WriteFile ''keys.json'' (json_dumps ds)], Inr (Some ds))" .
  show "\<exists>rest. main e = (WriteFile ''keys.json'' (json_dumps ds) # rest,
                            case selector (now_utc e) ds of
                              Inl err \<Rightarrow> Raised err
                            | Inr None \<Rightarrow> Returned
                            | Inr (Some c) \<Rightarrow>
                                if automatic_mode e \<or> key_txt_writable e then Returned
                                else Raised OSError)"
    unfolding main_def f by (auto split: sum.splits option.splits)
qed

theorem cache_file_never_read_witness:
  "those (map key_entry (parse_html_content
       (\<lambda>_. Some (''2024-01-01 00:00:00 - 2030-01-01 00:00:00'' @ newline @ ''ABCDEF'')) ''page'')) =
     Some [[(''start_date'', ''2024-01-01T00:00:00''), (''end_date'', ''2030-01-01T00:00:00''),
       (''activation_code'', ''ABCDEF'')]]
   \<and> fetch_cached_data
      \<lparr>http = Response 200 ''page'',
       page_find = (\<lambda>_. Some (''2024-01-01 00:00:00 - 2030-01-01 00:00:00'' @ newline @ ''ABCDEF'')),
       keys_json = Some ''stale'', keys_json_writable = True, key_txt_writable = True,
       now_utc = \<lparr>year = 2026, month = 1, day = 1, hour = 0, minute = 0, second = 0,
         microsecond = 0\<rparr>,
       automatic_mode = False, filecxx_running = False, window_list = []\<rparr> =
     ([WriteFile ''keys.json'' (json_dumps
      [[(''start_date'', ''2024-01-01T00:00:00''), (''end_date'', ''2030-01-01T00:00:00''),
       (''activation_code'', ''ABCDEF'')]])],
      Inr (Some [[(''start_date'', ''2024-01-01T00:00:00''), (''end_date'', ''2030-01-01T00:00:00''),
       (''activation_code'', ''ABCDEF'')]]))"
proof -
  let ?e = "\<lparr>http = Response 200 ''page'',
       page_find = (\<lambda>_. Some (''2024-01-01 00:00:00 - 2030-01-01 00:00:00'' @ newline @ ''ABCDEF'')),
       keys_json = Some ''stale'', keys_json_writable = True, key_txt_writable = True,
       now_utc = \<lparr>year = 2026, month = 1, day = 1, hour = 0, minute = 0, second = 0,
         microsecond = 0\<rparr>,
       automatic_mode = False, filecxx_running = False, window_list = []\<rparr>"
  let ?D = "[[(''start_date'', ''2024-01-01T00:00:00''), (''end_date'', ''2030-01-01T00:00:00''),
       (''activation_code'', ''ABCDEF'')]]"
  have h1: "http ?e = Response 200 ''page''" by simp
  have h2: "those (map key_entry (parse_html_content (page_find ?e) ''page'')) = Some ?D"
    by code_simp
  have h3: "keys_json_writable ?e" by simp
  from cache_file_never_read [where e = ?e and old = "''stale''" and body = "''page''" and ds = ?D]
    h1 h2 h3
  have "fetch_cached_data ?e = ([WriteFile ''keys.json'' (json_dumps ?D)], Inr (Some ?D))"
    by blast
  moreover from h2 have "those (map key_entry (parse_html_content
       (\<lambda>_. Some (''2024-01-01 00:00:00 - 2030-01-01 00:00:00'' @ newline @ ''ABCDEF'')) ''page'')) =
     Some ?D" by simp
  ultimately show ?thesis by blast
qed

section \<open>What reaches the selector\<close>

lemma loop_entries_well_formed:
  "list_all well_formed_entry result \<Longrightarrow>
   (case cur of None \<Rightarrow> True | Some r \<Rightarrow> is_range_line r \<and> strip r = r) \<Longrightarrow>
   list_all well_formed_entry (parse_html_content_loop lines result cur)"
proof (induction lines arbitrary: result cur)
  case Nil
  then show ?case by simp
next
  case (Cons l lines)
  show ?case
  proof (cases "strip l = []")
    case True
    with Cons show ?thesis by simp
  next
    case nonblank: False
    show ?thesis
    proof (cases "contains (strip l) '' - ''")
      case True
      have "list_all well_formed_entry (parse_html_content_loop lines result (Some (strip l)))"
        using Cons.prems(1) True by (intro Cons.IH) (simp_all add: is_range_line_def strip_idem)
      with True nonblank show ?thesis by simp
    next
      case False
      show ?thesis
      proof (cases cur)
        case None
        with Cons False nonblank show ?thesis by simp
      next
        case (Some r)
        with Cons.prems(2) have r: "is_range_line r" "strip r = r" by simp_all
        then have rne: "r \<noteq> []" by (auto simp: is_range_line_def)
        have "well_formed_entry \<lparr>date_range = r, activation_code = strip l\<rparr>"
          using r False nonblank by (simp add: well_formed_entry_def is_range_line_def strip_idem)
        with Cons.prems(1)
        have "list_all well_formed_entry (parse_html_content_loop lines
            (result @ [\<lparr>date_range = r, activation_code = strip l\<rparr>]) None)"
          by (intro Cons.IH) simp_all
        with Some False nonblank rne show ?thesis by simp
      qed
    qed
  qed
qed

lemma parse_html_content_well_formed:
  "list_all well_formed_entry (parse_html_content f html)"
  unfolding parse_html_content_def
  by (cases "f html") (simp_all add: loop_entries_well_formed)

lemma select_code_from_item:
  "select_code now items = Inr (Some c) \<Longrightarrow>
     \<exists>item \<in> set items. dict_getitem item ''activation_code'' = Inr c"
proof (induction items)
  case Nil
  then show ?case by simp
next
  case (Cons item items)
  then show ?case
    by (auto split: sum.splits if_splits)
qed

lemma build_cached_data_Some:
  "build_cached_data e = (effs, Inr (Some t)) \<Longrightarrow>
     \<exists>body. create_json_object (parse_html_content (page_find e) body) = Inr t"
  by (auto simp: build_cached_data_def split: http_result.splits if_splits sum.splits)

lemma fetch_branch_Some:
  "fetch_branch e = (effs, Inr (Some items)) \<Longrightarrow>
     \<exists>effs' t. build_cached_data e = (effs', Inr (Some t)) \<and> json_loads t = Inr items"
  by (auto simp: fetch_branch_def split: prod.splits sum.splits option.splits if_splits)

lemma fetched_items_are_key_entries:
  assumes "fetch_cached_data e = (effs, Inr (Some items))"
  shows "\<exists>body. those (map key_entry (parse_html_content (page_find e) body)) = Some items"
proof -
  from assms obtain effs' t where b: "build_cached_data e = (effs', Inr (Some t))"
    and l: "json_loads t = Inr items"
    using fetch_branch_Some unfolding fetch_cached_data_branch by blast
  from build_cached_data_Some [OF b] obtain body
    where c: "create_json_object (parse_html_content (page_find e) body) = Inr t" by blast
  let ?parsed = "parse_html_content (page_find e) body"
  from c obtain fd where fd: "create_json_object_loop ?parsed [] = Inr fd" and t: "t = json_dumps fd"
    by (auto simp: create_json_object_def split: sum.splits)
  from fd have th: "those (map key_entry ?parsed) = Some fd"
    by (simp add: create_json_object_loop_Inr)
  from json_loads_dumps [OF those_key_entries_distinct [OF th]] l t have "items = fd" by simp
  with th show ?thesis by blast
qed

lemma key_entries_codes:
  "those (map key_entry parsed) = Some ds \<Longrightarrow> list_all well_formed_entry parsed \<Longrightarrow>
     list_all (\<lambda>d. dict_getitem d ''activation_code'' \<noteq> Inr []) ds"
proof (induction parsed arbitrary: ds)
  case Nil
  then show ?case by simp
next
  case (Cons item parsed)
  from Cons.prems(1) obtain d ds' where d: "key_entry item = Some d"
    and ds': "those (map key_entry parsed) = Some ds'" and ds: "ds = d # ds'"
    by (auto split: option.splits)
  from d have "dict_getitem d ''activation_code'' = Inr (activation_code item)"
    by (auto simp: key_entry_def dict_getitem_def split: list.splits sum.splits)
  moreover from Cons.prems(2) have "activation_code item \<noteq> []"
    by (simp add: well_formed_entry_def)
  ultimately have "dict_getitem d ''activation_code'' \<noteq> Inr []" by simp
  with Cons.IH [OF ds'] Cons.prems(2) show ?case unfolding ds by simp
qed

lemma fetched_items_codes:
  assumes "fetch_cached_data e = (effs, Inr (Some items))"
  shows "list_all (\<lambda>d. dict_getitem d ''activation_code'' \<noteq> Inr []) items"
proof -
  from fetched_items_are_key_entries [OF assms] obtain body
    where "those (map key_entry (parse_html_content (page_find e) body)) = Some items" by blast
  then show ?thesis
    by (rule key_entries_codes) (rule parse_html_content_well_formed)
qed

lemma activation_window_code:
  "activation_window item = Some (st, en, c) \<Longrightarrow> dict_getitem item ''activation_code'' = Inr c"
  by (auto simp: activation_window_def split: sum.splits)

lemma windows_codes:
  "those (map activation_window items) = Some ws \<Longrightarrow>
   list_all (\<lambda>d. dict_getitem d ''activation_code'' \<noteq> Inr []) items \<Longrightarrow>
   list_all (\<lambda>w. snd (snd w) \<noteq> []) ws"
proof (induction items arbitrary: ws)
  case Nil
  then show ?case by simp
next
  case (Cons item items)
  from Cons.prems(1) obtain w ws' where w: "activation_window item = Some w"
    and ws': "those (map activation_window items) = Some ws'" and ws: "ws = w # ws'"
    by (auto split: option.splits)
  obtain st en c where wt: "w = (st, en, c)" by (cases w) auto
  from activation_window_code [OF w [unfolded wt]] Cons.prems(2) have "c \<noteq> []" by auto
  with Cons.IH [OF ws'] Cons.prems(2) show ?case unfolding ws wt by simp
qed

lemma selected_code_nonempty:
  assumes "list_all (\<lambda>d. dict_getitem d ''activation_code'' \<noteq> Inr []) items"
    and "select_code now items = Inr (Some c)"
  shows "c \<noteq> []"
proof -
  from select_code_from_item [OF assms(2)] obtain item
    where "item \<in> set items" "dict_getitem item ''activation_code'' = Inr c" by blast
  with assms(1) show ?thesis by (auto simp: list_all_iff)
qed

lemma selector_is_select_code:
  assumes "list_all (\<lambda>d. dict_getitem d ''activation_code'' \<noteq> Inr []) items"
  shows "selector now items = select_code now items"
proof (cases "select_code now items")
  case (Inl err)
  then show ?thesis by (simp add: selector_def)
next
  case (Inr r)
  show ?thesis
  proof (cases r)
    case None
    with Inr show ?thesis by (simp add: selector_def)
  next
    case (Some c)
    with Inr selected_code_nonempty [OF assms, of now c] show ?thesis
      by (simp add: selector_def)
  qed
qed

text \<open>
  Claim C1. In every run, for the items the fetch hands to the Selector and every instant:
  when each item has an activation window, the Selector returns the code of the first
  window, in sequence order, that contains the instant with both ends included, and "none
  found" when the sequence is empty or the instant lies outside every window. The same
  holds for any sequence of windows whose codes are not empty. For the two overlapping
  windows with codes A and B and the instant 2024-01-01 06:00 UTC it returns A.
\<close>

theorem selector_first_match:
  "(fetch_cached_data e = (effs, Inr (Some items)) \<and>
      those (map activation_window items) = Some ws \<longrightarrow>
      selector now items = Inr (spec_selector now ws))
   \<and> (those (map activation_window items) = Some ws \<and>
        list_all (\<lambda>w. snd (snd w) \<noteq> []) ws \<longrightarrow>
      selector now items = Inr (spec_selector now ws))
   \<and> (those (map activation_window items) = Some ws \<and>
        list_all (\<lambda>w. \<not> window_contains now w) ws \<longrightarrow>
      selector now items = Inr None)
   \<and> selector now [] = Inr None
   \<and> those (map activation_window
       [[(''start_date'', ''2024-01-01T08:00:00''), (''end_date'', ''2024-01-01T18:00:00''),
        (''activation_code'', ''A'')],
        [(''start_date'', ''2024-01-01T13:00:00''), (''end_date'', ''2024-01-01T23:00:00''),
        (''activation_code'', ''B'')]]) =
     Some [(\<lparr>year = 2024, month = 1, day = 1, hour = 0, minute = 0, second = 0, microsecond = 0\<rparr>,
        \<lparr>year = 2024, month = 1, day = 1, hour = 10, minute = 0, second = 0, microsecond = 0\<rparr>, ''A''),
        (\<lparr>year = 2024, month = 1, day = 1, hour = 5, minute = 0, second = 0, microsecond = 0\<rparr>,
        \<lparr>year = 2024, month = 1, day = 1, hour = 15, minute = 0, second = 0, microsecond = 0\<rparr>, ''B'')]
   \<and> selector \<lparr>year = 2024, month = 1, day = 1, hour = 6, minute = 0, second = 0, microsecond = 0\<rparr>
       [[(''start_date'', ''2024-01-01T08:00:00''), (''end_date'', ''2024-01-01T18:00:00''),
        (''activation_code'', ''A'')],
        [(''start_date'', ''2024-01-01T13:00:00''), (''end_date'', ''2024-01-01T23:00:00''),
        (''activation_code'', ''B'')]] = Inr (Some ''A'')"
proof (intro conjI impI)
  show "selector now items = Inr (spec_selector now ws)"
    if h: "fetch_cached_data e = (effs, Inr (Some items)) \<and>
      those (map activation_window items) = Some ws"
  proof -
    from h have "list_all (\<lambda>d. dict_getitem d ''activation_code'' \<noteq> Inr []) items"
      using fetched_items_codes by blast
    with h have "list_all (\<lambda>w. snd (snd w) \<noteq> []) ws" using windows_codes by blast
    with h show ?thesis by (simp add: selector_windows truthy_spec_selector)
  qed
  show "selector now items = Inr (spec_selector now ws)"
    if "those (map activation_window items) = Some ws \<and>
        list_all (\<lambda>w. snd (snd w) \<noteq> []) ws"
    using that by (simp add: selector_windows truthy_spec_selector)
  show "selector now items = Inr None"
    if "those (map activation_window items) = Some ws \<and>
        list_all (\<lambda>w. \<not> window_contains now w) ws"
    using that by (simp add: selector_windows spec_selector_none truthy_code_def)
  show "selector now [] = Inr None"
    by (simp add: selector_def)
qed code_simp+

theorem selector_first_match_witness:
  "fetch_cached_data
      \<lparr>http = Response 200 ''page'',
       page_find = (\<lambda>_. Some
         (''2024-01-01 08:00:00 - 2024-01-01 18:00:00'' @ newline @ ''A'' @ newline @
          ''2024-01-01 13:00:00 - 2024-01-01 23:00:00'' @ newline @ ''B'')),
       keys_json = None, keys_json_writable = True, key_txt_writable = True,
       now_utc = \<lparr>year = 2024, month = 1, day = 1, hour = 6, minute = 0, second = 0, microsecond = 0\<rparr>,
       automatic_mode = False, filecxx_running = False, window_list = []\<rparr> =
     ([WriteFile ''keys.json'' (json_dumps
       [[(''start_date'', ''2024-01-01T08:00:00''), (''end_date'', ''2024-01-01T18:00:00''),
        (''activation_code'', ''A'')],
        [(''start_date'', ''2024-01-01T13:00:00''), (''end_date'', ''2024-01-01T23:00:00''),
        (''activation_code'', ''B'')]])],
      Inr (Some [[(''start_date'', ''2024-01-01T08:00:00''), (''end_date'', ''2024-01-01T18:00:00''),
        (''activation_code'', ''A'')],
        [(''start_date'', ''2024-01-01T13:00:00''), (''end_date'', ''2024-01-01T23:00:00''),
        (''activation_code'', ''B'')]]))
   \<and> those (map activation_window
       [[(''start_date'', ''2024-01-01T08:00:00''), (''end_date'', ''2024-01-01T18:00:00''),
        (''activation_code'', ''A'')],
        [(''start_date'', ''2024-01-01T13:00:00''), (''end_date'', ''2024-01-01T23:00:00''),
        (''activation_code'', ''B'')]]) =
     Some [(\<lparr>year = 2024, month = 1, day = 1, hour = 0, minute = 0, second = 0, microsecond = 0\<rparr>,
        \<lparr>year = 2024, month = 1, day = 1, hour = 10, minute = 0, second = 0, microsecond = 0\<rparr>, ''A''),
        (\<lparr>year = 2024, month = 1, day = 1, hour = 5, minute = 0, second = 0, microsecond = 0\<rparr>,
        \<lparr>year = 2024, month = 1, day = 1, hour = 15, minute = 0, second = 0, microsecond = 0\<rparr>, ''B'')]
   \<and> list_all (\<lambda>w. snd (snd w) \<noteq> [])
       [(\<lparr>year = 2024, month = 1, day = 1, hour = 0, minute = 0, second = 0, microsecond = 0\<rparr>,
        \<lparr>year = 2024, month = 1, day = 1, hour = 10, minute = 0, second = 0, microsecond = 0\<rparr>, ''A''),
        (\<lparr>year = 2024, month = 1, day = 1, hour = 5, minute = 0, second = 0, microsecond = 0\<rparr>,
        \<lparr>year = 2024, month = 1, day = 1, hour = 15, minute = 0, second = 0, microsecond = 0\<rparr>, ''B'')]
   \<and> selector \<lparr>year = 2024, month = 1, day = 1, hour = 6, minute = 0, second = 0, microsecond = 0\<rparr>
       [[(''start_date'', ''2024-01-01T08:00:00''), (''end_date'', ''2024-01-01T18:00:00''),
        (''activation_code'', ''A'')],
        [(''start_date'', ''2024-01-01T13:00:00''), (''end_date'', ''2024-01-01T23:00:00''),
        (''activation_code'', ''B'')]] =
     Inr (spec_selector \<lparr>year = 2024, month = 1, day = 1, hour = 6, minute = 0, second = 0, microsecond = 0\<rparr>
       [(\<lparr>year = 2024, month = 1, day = 1, hour = 0, minute = 0, second = 0, microsecond = 0\<rparr>,
        \<lparr>year = 2024, month = 1, day = 1, hour = 10, minute = 0, second = 0, microsecond = 0\<rparr>, ''A''),
        (\<lparr>year = 2024, month = 1, day = 1, hour = 5, minute = 0, second = 0, microsecond = 0\<rparr>,
        \<lparr>year = 2024, month = 1, day = 1, hour = 15, minute = 0, second = 0, microsecond = 0\<rparr>, ''B'')])
   \<and> list_all (\<lambda>w. \<not> window_contains \<lparr>year = 2024, month = 1, day = 2, hour = 6, minute = 0, second = 0, microsecond = 0\<rparr> w)
       [(\<lparr>year = 2024, month = 1, day = 1, hour = 0, minute = 0, second = 0, microsecond = 0\<rparr>,
        \<lparr>year = 2024, month = 1, day = 1, hour = 10, minute = 0, second = 0, microsecond = 0\<rparr>, ''A''),
        (\<lparr>year = 2024, month = 1, day = 1, hour = 5, minute = 0, second = 0, microsecond = 0\<rparr>,
        \<lparr>year = 2024, month = 1, day = 1, hour = 15, minute = 0, second = 0, microsecond = 0\<rparr>, ''B'')]
   \<and> selector \<lparr>year = 2024, month = 1, day = 2, hour = 6, minute = 0, second = 0, microsecond = 0\<rparr>
       [[(''start_date'', ''2024-01-01T08:00:00''), (''end_date'', ''2024-01-01T18:00:00''),
        (''activation_code'', ''A'')],
        [(''start_date'', ''2024-01-01T13:00:00''), (''end_date'', ''2024-01-01T23:00:00''),
        (''activation_code'', ''B'')]] = Inr None"
proof -
  let ?e = "\<lparr>http = Response 200 ''page'',
       page_find = (\<lambda>_. Some
         (''2024-01-01 08:00:00 - 2024-01-01 18:00:00'' @ newline @ ''A'' @ newline @
          ''2024-01-01 13:00:00 - 2024-01-01 23:00:00'' @ newline @ ''B'')),
       keys_json = None, keys_json_writable = True, key_txt_writable = True,
       now_utc = \<lparr>year = 2024, month = 1, day = 1, hour = 6, minute = 0, second = 0, microsecond = 0\<rparr>,
       automatic_mode = False, filecxx_running = False, window_list = []\<rparr>"
  let ?items = "[[(''start_date'', ''2024-01-01T08:00:00''), (''end_date'', ''2024-01-01T18:00:00''),
        (''activation_code'', ''A'')],
        [(''start_date'', ''2024-01-01T13:00:00''), (''end_date'', ''2024-01-01T23:00:00''),
        (''activation_code'', ''B'')]]"
  let ?ws = "[(\<lparr>year = 2024, month = 1, day = 1, hour = 0, minute = 0, second = 0, microsecond = 0\<rparr>,
        \<lparr>year = 2024, month = 1, day = 1, hour = 10, minute = 0, second = 0, microsecond = 0\<rparr>, ''A''),
        (\<lparr>year = 2024, month = 1, day = 1, hour = 5, minute = 0, second = 0, microsecond = 0\<rparr>,
        \<lparr>year = 2024, month = 1, day = 1, hour = 15, minute = 0, second = 0, microsecond = 0\<rparr>, ''B'')]"
  let ?now = "\<lparr>year = 2024, month = 1, day = 1, hour = 6, minute = 0, second = 0, microsecond = 0\<rparr>"
  let ?late = "\<lparr>year = 2024, month = 1, day = 2, hour = 6, minute = 0, second = 0, microsecond = 0\<rparr>"
  have k: "those (map key_entry (parse_html_content (page_find ?e) ''page'')) = Some ?items"
    by code_simp
  have "http ?e = Response 200 ''page''" by simp
  from fetch_branch_fresh [OF this k]
  have h0: "fetch_cached_data ?e = ([WriteFile ''keys.json'' (json_dumps ?items)], Inr (Some ?items))"
    by (simp add: fetch_cached_data_branch write_keys_to_file_def)
  have h1: "those (map activation_window ?items) = Some ?ws" by code_simp
  have h2: "list_all (\<lambda>w. snd (snd w) \<noteq> []) ?ws" by simp
  have h3: "list_all (\<lambda>w. \<not> window_contains ?late w) ?ws" by code_simp
  from selector_first_match [where e = ?e and effs = "[WriteFile ''keys.json'' (json_dumps ?items)]"
      and items = ?items and ws = ?ws and now = ?now] h0 h1
  have a: "selector ?now ?items = Inr (spec_selector ?now ?ws)" by blast
  from selector_first_match [where items = ?items and ws = ?ws and now = ?late] h1 h3
  have b: "selector ?late ?items = Inr None" by blast
  from h0 h1 h2 h3 a b show ?thesis by blast
qed

text \<open>
  Claim C10. Every entry that \<open>parse_html_content\<close> emits has a range that contains
  \<open>" - "\<close> and a code that is a trimmed, non-empty line without \<open>" - "\<close>. Hence, on the
  items a run hands to the Selector (the entries as stored and read back), a selected code
  is never empty, and the test \<open>if not correct_code\<close> gives "none found" exactly when the
  loop matched no window.
\<close>

theorem parser_entries_invariant:
  "(\<forall>entry \<in> set (parse_html_content f html).
      contains (date_range entry) '' - '' \<and> activation_code entry \<noteq> [] \<and>
      strip (activation_code entry) = activation_code entry \<and>
      \<not> contains (activation_code entry) '' - '')
   \<and> (those (map key_entry (parse_html_content f html)) = Some ds \<longrightarrow>
        selector now ds = select_code now ds \<and>
        (\<forall>c. select_code now ds = Inr (Some c) \<longrightarrow> c \<noteq> []))
   \<and> (fetch_cached_data e = (effs, Inr (Some items)) \<longrightarrow>
        selector now items = select_code now items \<and>
        (\<forall>c. select_code now items = Inr (Some c) \<longrightarrow> c \<noteq> []))"
proof (intro conjI impI ballI allI)
  fix entry
  assume "entry \<in> set (parse_html_content f html)"
  with parse_html_content_well_formed [of f html] have w: "well_formed_entry entry"
    by (simp add: list_all_iff)
  from w show "contains (date_range entry) '' - ''"
    by (simp add: well_formed_entry_def is_range_line_def)
  from w show "activation_code entry \<noteq> []" by (simp add: well_formed_entry_def)
  from w show "strip (activation_code entry) = activation_code entry"
    by (simp add: well_formed_entry_def)
  from w show "\<not> contains (activation_code entry) '' - ''"
    by (simp add: well_formed_entry_def is_range_line_def)
next
  assume h: "those (map key_entry (parse_html_content f html)) = Some ds"
  from key_entries_codes [OF h parse_html_content_well_formed]
  have codes: "list_all (\<lambda>d. dict_getitem d ''activation_code'' \<noteq> Inr []) ds" .
  from codes show "selector now ds = select_code now ds" by (rule selector_is_select_code)
  fix c
  assume "select_code now ds = Inr (Some c)"
  with codes show "c \<noteq> []" by (rule selected_code_nonempty)
next
  assume h: "fetch_cached_data e = (effs, Inr (Some items))"
  from fetched_items_codes [OF h]
  have codes: "list_all (\<lambda>d. dict_getitem d ''activation_code'' \<noteq> Inr []) items" .
  from codes show "selector now items = select_code now items" by (rule selector_is_select_code)
  fix c
  assume "select_code now items = Inr (Some c)"
  with codes show "c \<noteq> []" by (rule selected_code_nonempty)
qed

theorem parser_entries_invariant_witness:
  "parse_html_content (\<lambda>_. Some ('' 2026-01-01 00:00:00 - 2027-01-01 00:00:00 '' @ newline @ newline @ ''  K9-XYZ  '')) ''<pre id=codes>'' =
     [\<lparr>date_range = ''2026-01-01 00:00:00 - 2027-01-01 00:00:00'', activation_code = ''K9-XYZ''\<rparr>]
   \<and> contains ''2026-01-01 00:00:00 - 2027-01-01 00:00:00'' '' - ''
   \<and> strip ''K9-XYZ'' = ''K9-XYZ'' \<and> \<not> contains ''K9-XYZ'' '' - ''
   \<and> those (map key_entry
       [\<lparr>date_range = ''2026-01-01 00:00:00 - 2027-01-01 00:00:00'', activation_code = ''K9-XYZ''\<rparr>]) =
     Some [[(''start_date'', ''2026-01-01T00:00:00''), (''end_date'', ''2027-01-01T00:00:00''),
        (''activation_code'', ''K9-XYZ'')]]
   \<and> fetch_cached_data
      \<lparr>http = Response 200 ''<pre id=codes>'',
       page_find = (\<lambda>_. Some
         ('' 2026-01-01 00:00:00 - 2027-01-01 00:00:00 '' @ newline @ newline @ ''  K9-XYZ  '')),
       keys_json = None, keys_json_writable = False, key_txt_writable = True,
       now_utc = \<lparr>year = 2026, month = 5, day = 1, hour = 6, minute = 0, second = 0, microsecond = 0\<rparr>,
       automatic_mode = False, filecxx_running = False, window_list = []\<rparr> =
     ([LogException ''Failed to write keys to file'', Alert WriteKeysFailed],
      Inr (Some [[(''start_date'', ''2026-01-01T00:00:00''), (''end_date'', ''2027-01-01T00:00:00''),
        (''activation_code'', ''K9-XYZ'')]]))
   \<and> select_code \<lparr>year = 2026, month = 5, day = 1, hour = 6, minute = 0, second = 0, microsecond = 0\<rparr>
      [[(''start_date'', ''2026-01-01T00:00:00''), (''end_date'', ''2027-01-01T00:00:00''),
        (''activation_code'', ''K9-XYZ'')]] = Inr (Some ''K9-XYZ'')
   \<and> selector \<lparr>year = 2026, month = 5, day = 1, hour = 6, minute = 0, second = 0, microsecond = 0\<rparr>
      [[(''start_date'', ''2026-01-01T00:00:00''), (''end_date'', ''2027-01-01T00:00:00''),
        (''activation_code'', ''K9-XYZ'')]] = Inr (Some ''K9-XYZ'')"
proof -
  let ?f = "\<lambda>_::string. Some ('' 2026-01-01 00:00:00 - 2027-01-01 00:00:00 '' @ newline @ newline @ ''  K9-XYZ  '')"
  let ?h = "''<pre id=codes>''"
  let ?entry = "\<lparr>date_range = ''2026-01-01 00:00:00 - 2027-01-01 00:00:00'', activation_code = ''K9-XYZ''\<rparr>"
  let ?items = "[[(''start_date'', ''2026-01-01T00:00:00''), (''end_date'', ''2027-01-01T00:00:00''),
        (''activation_code'', ''K9-XYZ'')]]"
  let ?e = "\<lparr>http = Response 200 ''<pre id=codes>'',
       page_find = (\<lambda>_. Some
         ('' 2026-01-01 00:00:00 - 2027-01-01 00:00:00 '' @ newline @ newline @ ''  K9-XYZ  '')),
       keys_json = None, keys_json_writable = False, key_txt_writable = True,
       now_utc = \<lparr>year = 2026, month = 5, day = 1, hour = 6, minute = 0, second = 0, microsecond = 0\<rparr>,
       automatic_mode = False, filecxx_running = False, window_list = []\<rparr>"
  let ?effs = "[LogException ''Failed to write keys to file'', Alert WriteKeysFailed]"
  let ?now = "\<lparr>year = 2026, month = 5, day = 1, hour = 6, minute = 0, second = 0, microsecond = 0\<rparr>"
  have p: "parse_html_content ?f ?h = [?entry]" by code_simp
  have k: "those (map key_entry [?entry]) = Some ?items" by code_simp
  have "http ?e = Response 200 ?h" by simp
  moreover from p k have "those (map key_entry (parse_html_content (page_find ?e) ?h)) = Some ?items"
    by simp
  ultimately have "fetch_branch ?e = (write_keys_to_file ?e (json_dumps ?items), Inr (Some ?items))"
    by (rule fetch_branch_fresh)
  then have fe: "fetch_cached_data ?e = (?effs, Inr (Some ?items))"
    by (simp add: fetch_cached_data_branch write_keys_to_file_def)
  have sc: "select_code ?now ?items = Inr (Some ''K9-XYZ'')" by code_simp
  note t = parser_entries_invariant [where f = ?f and html = ?h and e = ?e and effs = ?effs
      and items = ?items and now = ?now and ds = ?items]
  from t p have w: "contains ''2026-01-01 00:00:00 - 2027-01-01 00:00:00'' '' - '' \<and>
      strip ''K9-XYZ'' = ''K9-XYZ'' \<and> \<not> contains ''K9-XYZ'' '' - ''"
    by simp
  from t fe have "selector ?now ?items = select_code ?now ?items" by blast
  with sc have sel: "selector ?now ?items = Inr (Some ''K9-XYZ'')" by simp
  from p w k fe sc sel show ?thesis by blast
qed

section \<open>Decimal fields\<close>

lemma digit_char_props:
  assumes "0 \<le> k" "k \<le> 9"
  shows "is_digit (digit_char k) \<and> \<not> isspace (digit_char k) \<and> digit_value (digit_char k) = k"
proof -
  from assms consider "k = 0" | "k = 1" | "k = 2" | "k = 3" | "k = 4" | "k = 5" | "k = 6"
    | "k = 7" | "k = 8" | "k = 9" by atomize_elim arith
  then show ?thesis
    by cases (simp_all add: digit_char_def is_digit_def isspace_def digit_value_def)
qed

lemma decimal_1: "n < 10 \<Longrightarrow> decimal n = [digit_char n]"
  by (subst decimal.simps) simp

lemma decimal_2:
  "10 \<le> n \<Longrightarrow> n < 100 \<Longrightarrow> decimal n = [digit_char (n div 10), digit_char (n mod 10)]"
  by (subst decimal.simps) (simp add: decimal_1)

lemma decimal_3:
  assumes "100 \<le> n" "n < 1000"
  shows "decimal n = [digit_char (n div 100), digit_char (n div 10 mod 10), digit_char (n mod 10)]"
proof -
  have "10 \<le> n div 10" "n div 10 < 100" using assms by simp_all
  from decimal_2 [OF this] have "decimal (n div 10) =
      [digit_char (n div 10 div 10), digit_char (n div 10 mod 10)]" .
  moreover have "n div 10 div 10 = n div 100" by (simp add: zdiv_zmult2_eq)
  ultimately show ?thesis using assms by (subst decimal.simps) simp
qed

lemma decimal_4:
  assumes "1000 \<le> n" "n < 10000"
  shows "decimal n = [digit_char (n div 1000), digit_char (n div 100 mod 10),
      digit_char (n div 10 mod 10), digit_char (n mod 10)]"
proof -
  have "100 \<le> n div 10" "n div 10 < 1000" using assms by simp_all
  from decimal_3 [OF this] have "decimal (n div 10) =
      [digit_char (n div 10 div 100), digit_char (n div 10 div 10 mod 10),
       digit_char (n div 10 mod 10)]" .
  moreover have "n div 10 div 100 = n div 1000" "n div 10 div 10 = n div 100"
    by (simp_all add: zdiv_zmult2_eq)
  ultimately show ?thesis using assms by (subst decimal.simps) simp
qed

lemma digit_char_0: "digit_char 0 = CHR ''0''"
  by code_simp

lemma replicate_small:
  "replicate 1 c = [c]" "replicate 2 c = [c, c]" "replicate 3 c = [c, c, c]"
  by (simp_all add: numeral_2_eq_2 numeral_3_eq_3)

lemma zero_pad_2:
  assumes "0 \<le> n" "n < 100"
  shows "zero_pad 2 n = [digit_char (n div 10), digit_char (n mod 10)]"
proof (cases "n < 10")
  case True
  with assms show ?thesis by (simp add: zero_pad_def decimal_1 digit_char_0 replicate_small del: decimal.simps)
next
  case False
  with assms show ?thesis by (simp add: zero_pad_def decimal_2 del: decimal.simps)
qed

lemma zero_pad_4:
  assumes "0 \<le> n" "n < 10000"
  shows "zero_pad 4 n = [digit_char (n div 1000), digit_char (n div 100 mod 10),
      digit_char (n div 10 mod 10), digit_char (n mod 10)]"
proof -
  consider "n < 10" | "10 \<le> n" "n < 100" | "100 \<le> n" "n < 1000" | "1000 \<le> n"
    by atomize_elim arith
  then show ?thesis
  proof cases
    case 1
    with assms show ?thesis by (simp add: zero_pad_def decimal_1 digit_char_0 replicate_small del: decimal.simps)
  next
    case 2
    with assms show ?thesis by (simp add: zero_pad_def decimal_2 digit_char_0 replicate_small del: decimal.simps)
  next
    case 3
    with assms show ?thesis by (simp add: zero_pad_def decimal_3 digit_char_0 replicate_small del: decimal.simps)
  next
    case 4
    with assms show ?thesis by (simp add: zero_pad_def decimal_4 del: decimal.simps)
  qed
qed

lemma strip_digits:
  assumes "\<not> isspace a" "\<not> isspace b"
  shows "strip (a # xs @ [b]) = a # xs @ [b]"
  using assms by (simp add: strip_def)

lemma py_int_2:
  assumes "0 \<le> a" "a \<le> 9" "0 \<le> b" "b \<le> 9"
  shows "py_int [digit_char a, digit_char b] = a * 10 + b"
proof -
  from digit_char_props [OF assms(1,2)] digit_char_props [OF assms(3,4)]
  have p: "\<not> isspace (digit_char a)" "\<not> isspace (digit_char b)"
    "digit_value (digit_char a) = a" "digit_value (digit_char b) = b" by simp_all
  from strip_digits [OF p(1,2), of "[]"]
  have "strip [digit_char a, digit_char b] = [digit_char a, digit_char b]" by simp
  then show ?thesis unfolding py_int_def by (simp add: p)
qed

lemma py_int_4:
  assumes "0 \<le> a" "a \<le> 9" "0 \<le> b" "b \<le> 9" "0 \<le> c" "c \<le> 9" "0 \<le> d" "d \<le> 9"
  shows "py_int [digit_char a, digit_char b, digit_char c, digit_char d] =
      a * 1000 + b * 100 + c * 10 + d"
proof -
  from digit_char_props [OF assms(1,2)] digit_char_props [OF assms(3,4)]
    digit_char_props [OF assms(5,6)] digit_char_props [OF assms(7,8)]
  have p: "\<not> isspace (digit_char a)" "\<not> isspace (digit_char d)"
    "digit_value (digit_char a) = a" "digit_value (digit_char b) = b"
    "digit_value (digit_char c) = c" "digit_value (digit_char d) = d" by simp_all
  from strip_digits [OF p(1,2), of "[digit_char b, digit_char c]"]
  have "strip [digit_char a, digit_char b, digit_char c, digit_char d] =
      [digit_char a, digit_char b, digit_char c, digit_char d]" by simp
  then show ?thesis unfolding py_int_def by (simp add: p)
qed

lemma two_digits:
  fixes n :: int
  assumes "0 \<le> n" "n < 100"
  shows "0 \<le> n div 10 \<and> n div 10 \<le> 9 \<and> 0 \<le> n mod 10 \<and> n mod 10 \<le> 9 \<and>
         n div 10 * 10 + n mod 10 = n"
proof -
  have "n div 10 < 10" using assms(2) by (simp add: div_less_iff_less_mult)
  moreover have "0 \<le> n div 10" using assms(1) by (simp add: pos_imp_zdiv_nonneg_iff)
  moreover have "0 \<le> n mod 10" "n mod 10 < 10" by simp_all
  moreover have "n div 10 * 10 + n mod 10 = n" by simp
  ultimately show ?thesis by linarith
qed

lemma four_digits:
  fixes n :: int
  assumes "0 \<le> n" "n < 10000"
  shows "0 \<le> n div 1000 \<and> n div 1000 \<le> 9 \<and> 0 \<le> n div 100 mod 10 \<and> n div 100 mod 10 \<le> 9 \<and>
         0 \<le> n div 10 mod 10 \<and> n div 10 mod 10 \<le> 9 \<and> 0 \<le> n mod 10 \<and> n mod 10 \<le> 9 \<and>
         n div 1000 * 1000 + n div 100 mod 10 * 100 + n div 10 mod 10 * 10 + n mod 10 = n"
proof -
  define q1 where "q1 = n div 10"
  define q2 where "q2 = q1 div 10"
  define q3 where "q3 = q2 div 10"
  have e1: "n = q1 * 10 + n mod 10" unfolding q1_def by simp
  have e2: "q1 = q2 * 10 + q1 mod 10" unfolding q2_def by simp
  have e3: "q2 = q3 * 10 + q2 mod 10" unfolding q3_def by simp
  have b: "0 \<le> n mod 10" "n mod 10 < 10" "0 \<le> q1 mod 10" "q1 mod 10 < 10"
    "0 \<le> q2 mod 10" "q2 mod 10 < 10" by simp_all
  have q: "q2 = n div 100" "q3 = n div 1000"
    unfolding q3_def q2_def q1_def by (simp_all add: zdiv_zmult2_eq)
  have "0 \<le> q3" unfolding q(2) using assms(1) by (simp add: pos_imp_zdiv_nonneg_iff)
  moreover have "q3 < 10" unfolding q(2) using assms(2) by (simp add: div_less_iff_less_mult)
  moreover have "q3 * 1000 + q2 mod 10 * 100 + q1 mod 10 * 10 + n mod 10 = n"
    using e1 e2 e3 by linarith
  ultimately have "0 \<le> q3 \<and> q3 \<le> 9 \<and> 0 \<le> q2 mod 10 \<and> q2 mod 10 \<le> 9 \<and>
         0 \<le> q1 mod 10 \<and> q1 mod 10 \<le> 9 \<and> 0 \<le> n mod 10 \<and> n mod 10 \<le> 9 \<and>
         q3 * 1000 + q2 mod 10 * 100 + q1 mod 10 * 10 + n mod 10 = n"
    using b by linarith
  then show ?thesis unfolding q q1_def .
qed

lemma py_int_zero_pad_2:
  assumes "0 \<le> n" "n < 100"
  shows "py_int (zero_pad 2 n) = n \<and> list_all is_digit (zero_pad 2 n) \<and> length (zero_pad 2 n) = 2"
proof -
  from two_digits [OF assms] have d: "0 \<le> n div 10" "n div 10 \<le> 9" "0 \<le> n mod 10" "n mod 10 \<le> 9"
    "n div 10 * 10 + n mod 10 = n" by simp_all
  from py_int_2 [OF d(1-4)] d(5) digit_char_props [OF d(1,2)] digit_char_props [OF d(3,4)]
  show ?thesis unfolding zero_pad_2 [OF assms] by simp
qed

lemma py_int_zero_pad_4:
  assumes "0 \<le> n" "n < 10000"
  shows "py_int (zero_pad 4 n) = n \<and> list_all is_digit (zero_pad 4 n) \<and> length (zero_pad 4 n) = 4"
proof -
  from four_digits [OF assms] have d: "0 \<le> n div 1000" "n div 1000 \<le> 9"
    "0 \<le> n div 100 mod 10" "n div 100 mod 10 \<le> 9" "0 \<le> n div 10 mod 10" "n div 10 mod 10 \<le> 9"
    "0 \<le> n mod 10" "n mod 10 \<le> 9"
    "n div 1000 * 1000 + n div 100 mod 10 * 100 + n div 10 mod 10 * 10 + n mod 10 = n"
    by simp_all
  from py_int_4 [OF d(1-8)] d(9) digit_char_props [OF d(1,2)] digit_char_props [OF d(3,4)]
    digit_char_props [OF d(5,6)] digit_char_props [OF d(7,8)]
  show ?thesis unfolding zero_pad_4 [OF assms] by simp
qed


lemma fromisoformat_digits:
  assumes "0 \<le> y3" "y3 \<le> 9" "0 \<le> y2" "y2 \<le> 9" "0 \<le> y1" "y1 \<le> 9" "0 \<le> y0" "y0 \<le> 9" "0 \<le> m1" "m1 \<le> 9" "0 \<le> m0" "m0 \<le> 9" "0 \<le> d1" "d1 \<le> 9" "0 \<le> d0" "d0 \<le> 9" "0 \<le> h1" "h1 \<le> 9" "0 \<le> h0" "h0 \<le> 9" "0 \<le> i1" "i1 \<le> 9" "0 \<le> i0" "i0 \<le> 9" "0 \<le> s1" "s1 \<le> 9" "0 \<le> s0" "s0 \<le> 9"
  shows "fromisoformat
      [digit_char y3, digit_char y2, digit_char y1, digit_char y0, CHR ''-'',
       digit_char m1, digit_char m0, CHR ''-'', digit_char d1, digit_char d0, sep,
       digit_char h1, digit_char h0, CHR '':'', digit_char i1, digit_char i0, CHR '':'',
       digit_char s1, digit_char s0] =
     datetime_new (y3 * 1000 + y2 * 100 + y1 * 10 + y0) (m1 * 10 + m0) (d1 * 10 + d0)
       (h1 * 10 + h0) (i1 * 10 + i0) (s1 * 10 + s0) 0"
proof -
  have dg: "is_digit (digit_char y3)" "is_digit (digit_char y2)" "is_digit (digit_char y1)"
    "is_digit (digit_char y0)" "is_digit (digit_char m1)" "is_digit (digit_char m0)"
    "is_digit (digit_char d1)" "is_digit (digit_char d0)" "is_digit (digit_char h1)"
    "is_digit (digit_char h0)" "is_digit (digit_char i1)" "is_digit (digit_char i0)"
    "is_digit (digit_char s1)" "is_digit (digit_char s0)"
    using assms digit_char_props by blast+
  have pi: "py_int [digit_char y3, digit_char y2, digit_char y1, digit_char y0] =
      y3 * 1000 + y2 * 100 + y1 * 10 + y0"
    "py_int [digit_char m1, digit_char m0] = m1 * 10 + m0"
    "py_int [digit_char d1, digit_char d0] = d1 * 10 + d0"
    "py_int [digit_char h1, digit_char h0] = h1 * 10 + h0"
    "py_int [digit_char i1, digit_char i0] = i1 * 10 + i0"
    "py_int [digit_char s1, digit_char s0] = s1 * 10 + s0"
    using assms by (simp_all add: py_int_2 py_int_4)
  show ?thesis unfolding fromisoformat_def by (simp add: dg pi)
qed

lemma days_in_month_le:
  assumes "1 \<le> m" "m \<le> 12"
  shows "days_in_month y m \<le> 31"
proof -
  from assms consider "m = 1" | "m = 2" | "m = 3" | "m = 4" | "m = 5" | "m = 6" | "m = 7"
    | "m = 8" | "m = 9" | "m = 10" | "m = 11" | "m = 12" by atomize_elim arith
  then show ?thesis
  proof cases
    case 1
    then show ?thesis by (simp add: days_in_month_def DAYS_IN_MONTH_def)
  next
    case 2
    then show ?thesis by (simp add: days_in_month_def DAYS_IN_MONTH_def)
  next
    case 3
    then show ?thesis by (simp add: days_in_month_def DAYS_IN_MONTH_def)
  next
    case 4
    then show ?thesis by (simp add: days_in_month_def DAYS_IN_MONTH_def)
  next
    case 5
    then show ?thesis by (simp add: days_in_month_def DAYS_IN_MONTH_def)
  next
    case 6
    then show ?thesis by (simp add: days_in_month_def DAYS_IN_MONTH_def)
  next
    case 7
    then show ?thesis by (simp add: days_in_month_def DAYS_IN_MONTH_def)
  next
    case 8
    then show ?thesis by (simp add: days_in_month_def DAYS_IN_MONTH_def)
  next
    case 9
    then show ?thesis by (simp add: days_in_month_def DAYS_IN_MONTH_def)
  next
    case 10
    then show ?thesis by (simp add: days_in_month_def DAYS_IN_MONTH_def)
  next
    case 11
    then show ?thesis by (simp add: days_in_month_def DAYS_IN_MONTH_def)
  next
    case 12
    then show ?thesis by (simp add: days_in_month_def DAYS_IN_MONTH_def)
  qed
qed

lemma isoformat_digits:
  assumes "valid_datetime dt" "microsecond dt = 0"
  shows "isoformat dt =
      [digit_char (year dt div 1000), digit_char (year dt div 100 mod 10),
       digit_char (year dt div 10 mod 10), digit_char (year dt mod 10), CHR ''-'',
       digit_char (month dt div 10), digit_char (month dt mod 10), CHR ''-'',
       digit_char (day dt div 10), digit_char (day dt mod 10), CHR ''T'',
       digit_char (hour dt div 10), digit_char (hour dt mod 10), CHR '':'',
       digit_char (minute dt div 10), digit_char (minute dt mod 10), CHR '':'',
       digit_char (second dt div 10), digit_char (second dt mod 10)]"
proof -
  from assms(1) have r: "0 \<le> year dt" "year dt < 10000" "0 \<le> month dt" "month dt < 100"
    "0 \<le> hour dt" "hour dt < 100" "0 \<le> minute dt" "minute dt < 100"
    "0 \<le> second dt" "second dt < 100" "1 \<le> month dt" "month dt \<le> 12"
    "0 \<le> day dt" "day dt \<le> days_in_month (year dt) (month dt)"
    by (simp_all add: valid_datetime_def check_date_fields_def check_time_fields_def)
  from days_in_month_le [OF r(11,12), of "year dt"] r(14) have d: "day dt < 100" by linarith
  show ?thesis
    unfolding isoformat_def zero_pad_4 [OF r(1,2)] zero_pad_2 [OF r(3,4)] zero_pad_2 [OF r(5,6)]
      zero_pad_2 [OF r(7,8)] zero_pad_2 [OF r(9,10)] zero_pad_2 [OF r(13) d]
    using assms(2) by simp
qed

lemma isoformat_roundtrip:
  assumes "valid_datetime dt" "microsecond dt = 0"
  shows "fromisoformat (isoformat dt) = Inr dt \<and> iso_seconds_shape (isoformat dt)"
proof -
  from assms(1) have r: "0 \<le> year dt" "year dt < 10000" "0 \<le> month dt" "month dt < 100"
    "0 \<le> hour dt" "hour dt < 100" "0 \<le> minute dt" "minute dt < 100"
    "0 \<le> second dt" "second dt < 100" "1 \<le> month dt" "month dt \<le> 12"
    "0 \<le> day dt" "day dt \<le> days_in_month (year dt) (month dt)"
    by (simp_all add: valid_datetime_def check_date_fields_def check_time_fields_def)
  from days_in_month_le [OF r(11,12), of "year dt"] r(14) have d: "day dt < 100" by linarith
  note y = four_digits [OF r(1,2)]
  note m = two_digits [OF r(3,4)]
  note dd = two_digits [OF r(13) d]
  note h = two_digits [OF r(5,6)]
  note mi = two_digits [OF r(7,8)]
  note s = two_digits [OF r(9,10)]
  have "fromisoformat (isoformat dt) =
      datetime_new (year dt div 1000 * 1000 + year dt div 100 mod 10 * 100 +
          year dt div 10 mod 10 * 10 + year dt mod 10)
        (month dt div 10 * 10 + month dt mod 10) (day dt div 10 * 10 + day dt mod 10)
        (hour dt div 10 * 10 + hour dt mod 10) (minute dt div 10 * 10 + minute dt mod 10)
        (second dt div 10 * 10 + second dt mod 10) 0"
    unfolding isoformat_digits [OF assms]
    using y m dd h mi s by (intro fromisoformat_digits) simp_all
  also have "\<dots> = datetime_new (year dt) (month dt) (day dt) (hour dt) (minute dt) (second dt) 0"
    using y m dd h mi s by simp
  also have "\<dots> = Inr dt"
    using assms by (simp add: datetime_new_def valid_datetime_def)
  finally have a: "fromisoformat (isoformat dt) = Inr dt" .
  have dg: "is_digit (digit_char (year dt div 1000))" "is_digit (digit_char (year dt div 100 mod 10))"
    "is_digit (digit_char (year dt div 10 mod 10))" "is_digit (digit_char (year dt mod 10))"
    "is_digit (digit_char (month dt div 10))" "is_digit (digit_char (month dt mod 10))"
    "is_digit (digit_char (day dt div 10))" "is_digit (digit_char (day dt mod 10))"
    "is_digit (digit_char (hour dt div 10))" "is_digit (digit_char (hour dt mod 10))"
    "is_digit (digit_char (minute dt div 10))" "is_digit (digit_char (minute dt mod 10))"
    "is_digit (digit_char (second dt div 10))" "is_digit (digit_char (second dt mod 10))"
    using y m dd h mi s digit_char_props by blast+
  have b: "iso_seconds_shape (isoformat dt)"
    unfolding isoformat_digits [OF assms] iso_seconds_shape_def by (simp add: dg)
  from a b show ?thesis ..
qed

lemma strptime_valid:
  assumes "strptime s = Inr dt"
  shows "valid_datetime dt \<and> microsecond dt = 0"
proof -
  from assms obtain y m d h mi sec where n: "datetime_new y m d h mi sec 0 = Inr dt"
    unfolding strptime_def by (auto split: list.splits prod.splits if_splits)
  from datetime_new_valid [OF n] datetime_new_fields [OF n] show ?thesis by simp
qed

lemma those_key_entries_keys:
  "those (map key_entry parsed) = Some ds \<Longrightarrow>
     list_all (\<lambda>d. map fst d = [''start_date'', ''end_date'', ''activation_code'']) ds"
proof (induction parsed arbitrary: ds)
  case Nil
  then show ?case by simp
next
  case (Cons item parsed)
  then show ?case by (auto split: option.splits dest: key_entry_keys)
qed

lemma key_entry_Some:
  assumes "key_entry item = Some d"
  shows "\<exists>a b ds de. py_split (date_range item) '' - '' = [a, b] \<and>
      strptime a = Inr ds \<and> strptime b = Inr de \<and>
      d = [(''start_date'', isoformat ds), (''end_date'', isoformat de),
           (''activation_code'', activation_code item)]"
  using assms
  by (auto simp: key_entry_def format_date_def split: list.splits sum.splits)

text \<open>
  Claim C8. The text \<open>create_json_object\<close> returns is a JSON list with one object per
  parsed entry, each with exactly the keys \<open>start_date\<close>, \<open>end_date\<close> and
  \<open>activation_code\<close>, in that order. The two dates are the two halves of the entry's range
  as \<open>strptime\<close> read them, written by \<open>isoformat\<close>: nineteen characters
  \<open>YYYY-MM-DDTHH:MM:SS\<close> with no time zone suffix, which read back as the same wall-clock
  fields; no conversion to UTC has been applied to them.
\<close>

theorem keys_json_payload:
  "(key_entry item = Some d \<longrightarrow>
      (\<exists>a b ds de. py_split (date_range item) '' - '' = [a, b] \<and>
         strptime a = Inr ds \<and> strptime b = Inr de \<and>
         d = [(''start_date'', isoformat ds), (''end_date'', isoformat de),
              (''activation_code'', activation_code item)] \<and>
         iso_seconds_shape (isoformat ds) \<and> iso_seconds_shape (isoformat de) \<and>
         fromisoformat (isoformat ds) = Inr ds \<and> fromisoformat (isoformat de) = Inr de))
   \<and> (create_json_object parsed = Inr payload \<longrightarrow>
        (\<exists>dicts. those (map key_entry parsed) = Some dicts \<and> length dicts = length parsed \<and>
           payload = json_dumps dicts \<and> json_loads payload = Inr dicts \<and>
           list_all (\<lambda>d. map fst d = [''start_date'', ''end_date'', ''activation_code''])
             dicts))"
proof (intro conjI impI)
  assume "key_entry item = Some d"
  from key_entry_Some [OF this] obtain a b ds de
    where k: "py_split (date_range item) '' - '' = [a, b]" "strptime a = Inr ds"
      "strptime b = Inr de"
      "d = [(''start_date'', isoformat ds), (''end_date'', isoformat de),
           (''activation_code'', activation_code item)]" by blast
  from strptime_valid [OF k(2)] have "valid_datetime ds" "microsecond ds = 0" by simp_all
  from isoformat_roundtrip [OF this]
  have s: "fromisoformat (isoformat ds) = Inr ds" "iso_seconds_shape (isoformat ds)" by simp_all
  from strptime_valid [OF k(3)] have "valid_datetime de" "microsecond de = 0" by simp_all
  from isoformat_roundtrip [OF this]
  have e: "fromisoformat (isoformat de) = Inr de" "iso_seconds_shape (isoformat de)" by simp_all
  from k s e show "\<exists>a b ds de. py_split (date_range item) '' - '' = [a, b] \<and>
         strptime a = Inr ds \<and> strptime b = Inr de \<and>
         d = [(''start_date'', isoformat ds), (''end_date'', isoformat de),
              (''activation_code'', activation_code item)] \<and>
         iso_seconds_shape (isoformat ds) \<and> iso_seconds_shape (isoformat de) \<and>
         fromisoformat (isoformat ds) = Inr ds \<and> fromisoformat (isoformat de) = Inr de"
    by blast
next
  assume "create_json_object parsed = Inr payload"
  then obtain fd where fd: "create_json_object_loop parsed [] = Inr fd"
    and t: "payload = json_dumps fd"
    by (auto simp: create_json_object_def split: sum.splits)
  from fd have th: "those (map key_entry parsed) = Some fd"
    by (simp add: create_json_object_loop_Inr)
  from json_loads_dumps [OF those_key_entries_distinct [OF th]] t
  have l: "json_loads payload = Inr fd" by simp
  from those_key_entries_fields [OF th] have n: "length fd = length parsed" by simp
  from th n t l those_key_entries_keys [OF th]
  show "\<exists>dicts. those (map key_entry parsed) = Some dicts \<and> length dicts = length parsed \<and>
           payload = json_dumps dicts \<and> json_loads payload = Inr dicts \<and>
           list_all (\<lambda>d. map fst d = [''start_date'', ''end_date'', ''activation_code''])
             dicts"
    by blast
qed

theorem keys_json_payload_witness:
  "key_entry \<lparr>date_range = ''2024-1-2 0:0:0 - 2024-01-03  00:00:00'', activation_code = ''GHI''\<rparr> =
     Some [(''start_date'', ''2024-01-02T00:00:00''), (''end_date'', ''2024-01-03T00:00:00''),
      (''activation_code'', ''GHI'')]
   \<and> iso_seconds_shape ''2024-01-02T00:00:00'' \<and> iso_seconds_shape ''2024-01-03T00:00:00''
   \<and> create_json_object [\<lparr>date_range = ''2024-1-2 0:0:0 - 2024-01-03  00:00:00'', activation_code = ''GHI''\<rparr>] =
     Inr (json_dumps [[(''start_date'', ''2024-01-02T00:00:00''), (''end_date'', ''2024-01-03T00:00:00''),
      (''activation_code'', ''GHI'')]])
   \<and> json_loads (json_dumps [[(''start_date'', ''2024-01-02T00:00:00''), (''end_date'', ''2024-01-03T00:00:00''),
      (''activation_code'', ''GHI'')]]) =
     Inr [[(''start_date'', ''2024-01-02T00:00:00''), (''end_date'', ''2024-01-03T00:00:00''),
      (''activation_code'', ''GHI'')]]"
proof -
  let ?item = "\<lparr>date_range = ''2024-1-2 0:0:0 - 2024-01-03  00:00:00'', activation_code = ''GHI''\<rparr>"
  let ?d = "[(''start_date'', ''2024-01-02T00:00:00''), (''end_date'', ''2024-01-03T00:00:00''),
      (''activation_code'', ''GHI'')]"
  have k: "key_entry ?item = Some ?d" by code_simp
  from keys_json_payload [where item = ?item and d = ?d] k
  obtain a b ds de where "?d = [(''start_date'', isoformat ds), (''end_date'', isoformat de),
      (''activation_code'', activation_code ?item)]"
    and "iso_seconds_shape (isoformat ds)" "iso_seconds_shape (isoformat de)" by blast
  then have sh: "iso_seconds_shape ''2024-01-02T00:00:00'' \<and>
      iso_seconds_shape ''2024-01-03T00:00:00''" by simp
  have c: "create_json_object [?item] = Inr (json_dumps [?d])" by code_simp
  from keys_json_payload [where parsed = "[?item]" and payload = "json_dumps [?d]"] c
  obtain dicts where "those (map key_entry [?item]) = Some dicts"
    and "json_loads (json_dumps [?d]) = Inr dicts" by blast
  with k have "json_loads (json_dumps [?d]) = Inr [?d]" by simp
  with k sh c show ?thesis by blast
qed

end
